theory Spec2Isabelle
  imports Main
begin

section \<open>The persisted table of tree nodes\<close>

text \<open>
  \<^verbatim>\<open>models/TreeNode.js\<close> defines one table, \<^verbatim>\<open>tree_nodes\<close>, with the columns
  \<^verbatim>\<open>id\<close> (integer primary key, auto-increment), \<^verbatim>\<open>title\<close>, \<^verbatim>\<open>parent_node_id\<close>
  (nullable integer) and \<^verbatim>\<open>ordering\<close> (integer). A row is a record; the column
  \<^verbatim>\<open>id\<close> is called \<open>id_pk\<close> here because \<open>id\<close> is the identity function of HOL.
  The table is the list of its rows in insertion order.
\<close>

record node =
  id_pk :: int
  title :: string
  parent_node_id :: "int option"
  ordering :: int

text \<open>
  The store is the table together with the counter that SQLite keeps for an
  \<^verbatim>\<open>AUTOINCREMENT\<close> primary key: the largest key ever handed out.
\<close>

record store =
  rows :: "node list"
  seq :: int

text \<open>
  The responses of the routes that are not plain successes. Each constructor stands for
  the status and message the route sends:
  \<^item> \<open>NotFound\<close>: 404, "Node not found." / "Node or new parent node not found."
  \<^item> \<open>InvalidParent\<close>: 400, "Parent node does not exist."
  \<^item> \<open>Forbidden\<close>: 400, "Cannot delete the root node." / "Cannot move the root node."
  \<^item> \<open>Cycle\<close>: 400, "Cannot move a node to its own descendant."
  \<^item> \<open>InvalidOrdering\<close>: 400, "Invalid new ordering value."
  \<^item> \<open>ServerError\<close>: 500, sent by the \<^verbatim>\<open>catch\<close> block of a route.
\<close>

datatype error = NotFound | InvalidParent | Forbidden | Cycle | InvalidOrdering | ServerError

fun status :: "error \<Rightarrow> nat" where
  "status NotFound = 404"
| "status InvalidParent = 400"
| "status Forbidden = 400"
| "status Cycle = 400"
| "status InvalidOrdering = 400"
| "status ServerError = 500"

subsection \<open>The queries the routes issue\<close>

text \<open>\<^verbatim>\<open>TreeNode.findByPk(k)\<close>: the row with primary key \<open>k\<close>, or \<^verbatim>\<open>null\<close>.\<close>

definition findByPk :: "node list \<Rightarrow> int \<Rightarrow> node option" where
  "findByPk t k = find (\<lambda>r. id_pk r = k) t"

text \<open>\<^verbatim>\<open>TreeNode.findAll({ where: { parent_node_id: p } })\<close>; a \<^verbatim>\<open>null\<close> parent selects
  the rows whose column is \<^verbatim>\<open>NULL\<close>.\<close>

definition findAll :: "node list \<Rightarrow> int option \<Rightarrow> node list" where
  "findAll t p = filter (\<lambda>r. parent_node_id r = p) t"

text \<open>The same query with \<^verbatim>\<open>order: [["ordering", "ASC"]]\<close>. Rows with equal ordering
  are kept in table order.\<close>

definition findAllOrdered :: "node list \<Rightarrow> int option \<Rightarrow> node list" where
  "findAllOrdered t p = sort_key ordering (findAll t p)"

text \<open>\<^verbatim>\<open>TreeNode.count({ where: { parent_node_id: p } })\<close>.\<close>

definition count_rows :: "node list \<Rightarrow> int option \<Rightarrow> int" where
  "count_rows t p = int (length (findAll t p))"

text \<open>\<^verbatim>\<open>TreeNode.destroy({ where: { id: k } })\<close>.\<close>

definition destroy :: "node list \<Rightarrow> int \<Rightarrow> node list" where
  "destroy t k = filter (\<lambda>r. id_pk r \<noteq> k) t"

text \<open>\<^verbatim>\<open>TreeNode.update({ ordering: v }, { where: { id: k } })\<close>.\<close>

definition update_ordering :: "node list \<Rightarrow> int \<Rightarrow> int \<Rightarrow> node list" where
  "update_ordering t k v = map (\<lambda>r. if id_pk r = k then r\<lparr>ordering := v\<rparr> else r) t"

text \<open>\<^verbatim>\<open>instance.save()\<close>: the row with the instance's primary key takes the instance's
  fields. The routes load the instance in the same request and write nothing in between,
  so the fields they did not assign are the ones the row already has.\<close>

definition save :: "node list \<Rightarrow> node \<Rightarrow> node list" where
  "save t n = map (\<lambda>r. if id_pk r = id_pk n then n else r) t"

text \<open>\<^verbatim>\<open>TreeNode.create({ title, parent_node_id, ordering })\<close>: the key is one more than
  the largest key of the table and of the counter.\<close>

definition create :: "store \<Rightarrow> string \<Rightarrow> int option \<Rightarrow> int \<Rightarrow> node \<times> store" where
  "create s ttl p ord =
     (let k = fold max (map id_pk (rows s)) (seq s) + 1;
          n = \<lparr>id_pk = k, title = ttl, parent_node_id = p, ordering = ord\<rparr>
      in (n, \<lparr>rows = rows s @ [n], seq = k\<rparr>))"

text \<open>The start-up code of \<^verbatim>\<open>app.js\<close>: the root is created with the explicit key 1
  when no row has it.\<close>

definition root_node :: node where
  "root_node = \<lparr>id_pk = 1, title = ''Root Node'', parent_node_id = None, ordering = 0\<rparr>"

definition bootstrap :: "store \<Rightarrow> store" where
  "bootstrap s =
     (case findByPk (rows s) 1 of
        Some r \<Rightarrow> s
      | None \<Rightarrow> \<lparr>rows = rows s @ [root_node], seq = max (seq s) 1\<rparr>)"

definition empty_store :: store where
  "empty_store = \<lparr>rows = [], seq = 0\<rparr>"

section \<open>The routes\<close>

text \<open>
  A route takes the store and the request's values and returns its response together
  with the store it leaves behind. Node ids and orderings in requests are integers.
\<close>

subsection \<open>GET /nodes/:id\<close>

definition getNode :: "store \<Rightarrow> int \<Rightarrow> error + (node \<times> node list)" where
  "getNode s nodeId =
     (case findByPk (rows s) nodeId of
        None \<Rightarrow> Inl NotFound
      | Some n \<Rightarrow> Inr (n, findAllOrdered (rows s) (Some nodeId)))"

subsection \<open>POST /nodes\<close>

definition insertNode :: "store \<Rightarrow> int \<Rightarrow> string \<Rightarrow> (error + node) \<times> store" where
  "insertNode s parent_id ttl =
     (case findByPk (rows s) parent_id of
        None \<Rightarrow> (Inl InvalidParent, s)
      | Some parentNode \<Rightarrow>
          (let siblingCount = count_rows (rows s) (Some parent_id);
               (newNode, s') = create s ttl (Some parent_id) siblingCount
           in (Inr newNode, s')))"

subsection \<open>PUT /nodes/:id\<close>

definition updateNode :: "store \<Rightarrow> int \<Rightarrow> string \<Rightarrow> (error + node) \<times> store" where
  "updateNode s nodeId ttl =
     (case findByPk (rows s) nodeId of
        None \<Rightarrow> (Inl NotFound, s)
      | Some n \<Rightarrow>
          (let n' = n\<lparr>title := ttl\<rparr>
           in (Inr n', s\<lparr>rows := save (rows s) n'\<rparr>)))"

subsection \<open>DELETE /nodes/:id\<close>

text \<open>
  \<^verbatim>\<open>deleteNodeAndDescendants\<close> calls itself on every child before it destroys the row.
  The recursion ends only when the rows below the node form no cycle, so the model
  counts the depth of the calls: \<open>None\<close> means the depth allowed was not enough.
\<close>

fun fold_option :: "('a \<Rightarrow> 's \<Rightarrow> 's option) \<Rightarrow> 'a list \<Rightarrow> 's \<Rightarrow> 's option" where
  "fold_option f [] s = Some s"
| "fold_option f (x # xs) s = (case f x s of None \<Rightarrow> None | Some s' \<Rightarrow> fold_option f xs s')"

fun deleteNodeAndDescendants :: "nat \<Rightarrow> int \<Rightarrow> node list \<Rightarrow> node list option" where
  "deleteNodeAndDescendants 0 k t = None"
| "deleteNodeAndDescendants (Suc d) k t =
     (case fold_option (\<lambda>child. deleteNodeAndDescendants d (id_pk child))
             (findAll t (Some k)) t of
        None \<Rightarrow> None
      | Some t' \<Rightarrow> Some (destroy t' k))"

definition deleteNode :: "nat \<Rightarrow> store \<Rightarrow> int \<Rightarrow> ((error + unit) \<times> store) option" where
  "deleteNode d s nodeId =
     (if nodeId = 1 then Some (Inl Forbidden, s)
      else (case deleteNodeAndDescendants d nodeId (rows s) of
              None \<Rightarrow> None
            | Some t' \<Rightarrow> Some (Inr (), s\<lparr>rows := t'\<rparr>)))"

subsection \<open>PUT /nodes/:id/move\<close>

text \<open>
  \<^verbatim>\<open>isDescendant\<close> walks from \<^verbatim>\<open>parentNodeId\<close> upward. A parent id without a row makes
  \<^verbatim>\<open>parent.parent_node_id\<close> throw, which the route answers with 500; a cycle among
  the ancestors makes the walk endless, which is the value \<open>None\<close>.
\<close>

partial_function (option) isDescendant :: "node list \<Rightarrow> int option \<Rightarrow> int \<Rightarrow> (error + bool) option"
where
  "isDescendant t parentNodeId childId =
     (case parentNodeId of
        None \<Rightarrow> Some (Inr False)
      | Some p \<Rightarrow>
          if p = childId then Some (Inr True)
          else (case findByPk t p of
                  None \<Rightarrow> Some (Inl ServerError)
                | Some parent \<Rightarrow> isDescendant t (parent_node_id parent) childId))"

declare isDescendant.simps [code]

definition moveNode :: "store \<Rightarrow> int \<Rightarrow> int \<Rightarrow> ((error + unit) \<times> store) option" where
  "moveNode s nodeId new_parent_node_id =
     (case (findByPk (rows s) nodeId, findByPk (rows s) new_parent_node_id) of
        (Some n, Some newParentNode) \<Rightarrow>
          if nodeId = 1 then Some (Inl Forbidden, s)
          else (case isDescendant (rows s) (Some new_parent_node_id) nodeId of
                  None \<Rightarrow> None
                | Some (Inl e) \<Rightarrow> Some (Inl e, s)
                | Some (Inr True) \<Rightarrow> Some (Inl Cycle, s)
                | Some (Inr False) \<Rightarrow>
                    (let siblingCount = count_rows (rows s) (Some new_parent_node_id);
                         n' = n\<lparr>parent_node_id := Some new_parent_node_id,
                                 ordering := siblingCount\<rparr>
                     in Some (Inr (), s\<lparr>rows := save (rows s) n'\<rparr>)))
      | _ \<Rightarrow> Some (Inl NotFound, s))"

subsection \<open>PUT /nodes/:id/reorder\<close>

text \<open>
  \<^verbatim>\<open>Array.prototype.splice(start, deleteCount, ...items)\<close>: a negative \<^verbatim>\<open>start\<close> counts
  from the end, and the start is clamped to the array.
\<close>

definition splice_start :: "int \<Rightarrow> nat \<Rightarrow> nat" where
  "splice_start start len =
     (if start < 0 then nat (max (int len + start) 0) else min (nat start) len)"

definition splice_remove1 :: "'a list \<Rightarrow> int \<Rightarrow> 'a list" where
  "splice_remove1 xs start =
     (let k = splice_start start (length xs) in take k xs @ drop (Suc k) xs)"

definition splice_insert :: "'a list \<Rightarrow> int \<Rightarrow> 'a \<Rightarrow> 'a list" where
  "splice_insert xs start x =
     (let k = splice_start start (length xs) in take k xs @ x # drop k xs)"

text \<open>The loop that writes \<^verbatim>\<open>ordering: i\<close> to the row of \<^verbatim>\<open>siblings[i].id\<close>.\<close>

fun renumber :: "node list \<Rightarrow> node list \<Rightarrow> int \<Rightarrow> node list" where
  "renumber t [] i = t"
| "renumber t (x # xs) i = renumber (update_ordering t (id_pk x) i) xs (i + 1)"

definition reorderNode :: "store \<Rightarrow> int \<Rightarrow> int \<Rightarrow> (error + unit) \<times> store" where
  "reorderNode s nodeId new_ordering =
     (case findByPk (rows s) nodeId of
        None \<Rightarrow> (Inl NotFound, s)
      | Some n \<Rightarrow>
          (let siblings = findAllOrdered (rows s) (parent_node_id n)
           in if new_ordering < 0 \<or> new_ordering \<ge> int (length siblings)
              then (Inl InvalidOrdering, s)
              else (let removed = splice_remove1 siblings (ordering n);
                        inserted = splice_insert removed new_ordering n
                    in (Inr (), s\<lparr>rows := renumber (rows s) inserted 0\<rparr>))))"

section \<open>Ancestors and example stores\<close>

text \<open>
  \<open>on_chain t c q\<close>: the id \<open>c\<close> is met on the walk that starts at \<open>q\<close> and follows
  \<^verbatim>\<open>parent_node_id\<close> upward through rows of the table.
\<close>

inductive on_chain :: "node list \<Rightarrow> int \<Rightarrow> int option \<Rightarrow> bool" for t c where
  here: "on_chain t c (Some c)"
| up: "findByPk t p = Some r \<Longrightarrow> on_chain t c (parent_node_id r) \<Longrightarrow> on_chain t c (Some p)"

code_pred on_chain .

inductive_simps on_chain_Some: "on_chain t c (Some p)"
inductive_simps on_chain_None: "on_chain t c None"

text \<open>The root with the children A (id 2, ordering 0) and B (id 3, ordering 1).\<close>

definition two_children :: store where
  "two_children =
     \<lparr>rows = [root_node,
              \<lparr>id_pk = 2, title = ''A'', parent_node_id = Some 1, ordering = 0\<rparr>,
              \<lparr>id_pk = 3, title = ''B'', parent_node_id = Some 1, ordering = 1\<rparr>],
      seq = 3\<rparr>"

text \<open>The root, its child A (2), A's child B (3) and B's child C (4).\<close>

definition chain_store :: store where
  "chain_store =
     \<lparr>rows = [root_node,
              \<lparr>id_pk = 2, title = ''A'', parent_node_id = Some 1, ordering = 0\<rparr>,
              \<lparr>id_pk = 3, title = ''B'', parent_node_id = Some 2, ordering = 0\<rparr>,
              \<lparr>id_pk = 4, title = ''C'', parent_node_id = Some 3, ordering = 0\<rparr>],
      seq = 4\<rparr>"

section \<open>The invariants of the data model\<close>

text \<open>
  \<open>to_root t q k\<close>: the walk from \<open>q\<close> upward passes \<open>k\<close> rows and ends at the root's
  \<^verbatim>\<open>null\<close> parent. \<open>reaches_root d t q\<close> is the same walk, bounded by \<open>d\<close> rows.
\<close>

inductive to_root :: "node list \<Rightarrow> int option \<Rightarrow> nat \<Rightarrow> bool" for t where
  top: "to_root t None 0"
| step: "findByPk t p = Some r \<Longrightarrow> to_root t (parent_node_id r) k \<Longrightarrow> to_root t (Some p) (Suc k)"

code_pred to_root .

fun reaches_root :: "nat \<Rightarrow> node list \<Rightarrow> int option \<Rightarrow> bool" where
  "reaches_root d t None = True"
| "reaches_root 0 t (Some p) = False"
| "reaches_root (Suc d) t (Some p) =
     (case findByPk t p of None \<Rightarrow> False | Some r \<Rightarrow> reaches_root d t (parent_node_id r))"

text \<open>
  A well-formed table: the primary keys are unique, and from every row the parent chain
  ends at \<^verbatim>\<open>null\<close> (a chain without a repeated row is no longer than the table).
\<close>

definition wf_tree :: "node list \<Rightarrow> bool" where
  "wf_tree t \<longleftrightarrow>
     distinct (map id_pk t) \<and> (\<forall>r \<in> set t. reaches_root (length t) t (Some (id_pk r)))"

text \<open>The density invariant of the children of \<open>p\<close>: their orderings are
  \<open>0, \<dots>, n - 1\<close>, each once.\<close>

definition dense :: "node list \<Rightarrow> int option \<Rightarrow> bool" where
  "dense t p \<longleftrightarrow>
     (let cs = findAll t p
      in distinct (map ordering cs) \<and> set (map ordering cs) = {0 ..< int (length cs)})"

text \<open>What the move route writes to the row \<open>k\<close>; every other row is left as it is.\<close>

definition moved :: "int \<Rightarrow> int \<Rightarrow> int \<Rightarrow> node \<Rightarrow> node" where
  "moved k np c r =
     (if id_pk r = k then r\<lparr>parent_node_id := Some np, ordering := c\<rparr> else r)"

section \<open>Subtrees\<close>

text \<open>
  \<open>subtree t k\<close>: the ids reached from \<open>k\<close> by going from a node to the rows that name
  it as parent, the traversal of \<^verbatim>\<open>deleteNodeAndDescendants\<close>. \<open>height_le h t x\<close>: no
  such path from \<open>x\<close> passes \<open>h\<close> rows or more.
\<close>

inductive_set subtree :: "node list \<Rightarrow> int \<Rightarrow> int set" for t k where
  self: "k \<in> subtree t k"
| child: "x \<in> subtree t k \<Longrightarrow> r \<in> set t \<Longrightarrow> parent_node_id r = Some x \<Longrightarrow> id_pk r \<in> subtree t k"

fun height_le :: "nat \<Rightarrow> node list \<Rightarrow> int \<Rightarrow> bool" where
  "height_le 0 t x = False"
| "height_le (Suc h) t x = (\<forall>r \<in> set t. parent_node_id r = Some x \<longrightarrow> height_le h t (id_pk r))"

section \<open>The renumbering loop, row by row\<close>

text \<open>
  \<open>renumbered xs i r\<close>: the row \<open>r\<close> after the loop has written the orderings
  \<open>i, i + 1, \<dots>\<close> to the ids of \<open>xs\<close>. \<open>reinserted sibs n q\<close>: the siblings without the
  node \<open>n\<close>, with \<open>n\<close> put back at index \<open>q\<close>.
\<close>

fun renumbered :: "node list \<Rightarrow> int \<Rightarrow> node \<Rightarrow> node" where
  "renumbered [] i r = r"
| "renumbered (x # xs) i r =
     renumbered xs (i + 1) (if id_pk r = id_pk x then r\<lparr>ordering := i\<rparr> else r)"

definition reinserted :: "node list \<Rightarrow> node \<Rightarrow> int \<Rightarrow> node list" where
  "reinserted sibs n q =
     take (nat q) (filter (\<lambda>r. id_pk r \<noteq> id_pk n) sibs) @ n #
     drop (nat q) (filter (\<lambda>r. id_pk r \<noteq> id_pk n) sibs)"

section \<open>A store with a gap\<close>

text \<open>
  Neither the delete route nor the move route renumbers the siblings that stay behind.
  \<open>before_gap\<close> is the store after three inserts under the root (A, B, C with the ids 2, 3,
  4) and the move of A below C; \<open>gap_store\<close> is that store after B has been deleted: the
  root's only child C still has the ordering 2.
\<close>

definition before_gap :: store where
  "before_gap =
     \<lparr>rows = [root_node,
              \<lparr>id_pk = 2, title = ''A'', parent_node_id = Some 4, ordering = 0\<rparr>,
              \<lparr>id_pk = 3, title = ''B'', parent_node_id = Some 1, ordering = 1\<rparr>,
              \<lparr>id_pk = 4, title = ''C'', parent_node_id = Some 1, ordering = 2\<rparr>],
      seq = 4\<rparr>"

definition gap_store :: store where
  "gap_store =
     \<lparr>rows = [root_node,
              \<lparr>id_pk = 2, title = ''A'', parent_node_id = Some 4, ordering = 0\<rparr>,
              \<lparr>id_pk = 4, title = ''C'', parent_node_id = Some 1, ordering = 2\<rparr>],
      seq = 4\<rparr>"

section \<open>Basic facts about the queries\<close>

lemma findByPk_Some: "findByPk t k = Some n \<Longrightarrow> n \<in> set t \<and> id_pk n = k"
  unfolding findByPk_def by (induction t) (auto split: if_splits)

lemma findByPk_None: "findByPk t k = None \<longleftrightarrow> k \<notin> id_pk ` set t"
  unfolding findByPk_def by (induction t) auto

lemma findByPk_distinct:
  "distinct (map id_pk t) \<Longrightarrow> r \<in> set t \<Longrightarrow> findByPk t (id_pk r) = Some r"
  unfolding findByPk_def by (induction t) (auto simp: rev_image_eqI)

lemma fold_max_ge: "a \<le> fold max xs (a::int)"
proof (induction xs arbitrary: a)
  case Nil then show ?case by simp
next
  case (Cons x xs)
  have "a \<le> max x a" by simp
  also have "max x a \<le> fold max xs (max x a)" by (rule Cons.IH)
  finally show ?case by simp
qed

lemma fold_max_mem: "x \<in> set xs \<Longrightarrow> x \<le> fold max xs (a::int)"
proof (induction xs arbitrary: a)
  case Nil then show ?case by simp
next
  case (Cons y ys)
  show ?case
  proof (cases "x = y")
    case True
    have "max y a \<le> fold max ys (max y a)" by (rule fold_max_ge)
    then show ?thesis using True by simp
  next
    case False
    then show ?thesis using Cons by simp
  qed
qed

lemma create_fresh: "fst (create s ttl p ord) = n \<Longrightarrow> id_pk n \<notin> id_pk ` set (rows s)"
proof
  assume n: "fst (create s ttl p ord) = n" and "id_pk n \<in> id_pk ` set (rows s)"
  then have "id_pk n \<in> set (map id_pk (rows s))" by simp
  from fold_max_mem[OF this, of "seq s"] n show False
    by (auto simp: create_def Let_def)
qed

lemma findByPk_map:
  "(\<And>r. id_pk (g r) = id_pk r) \<Longrightarrow> findByPk (map g t) k = map_option g (findByPk t k)"
  unfolding findByPk_def by (induction t) auto

section \<open>Updating a title\<close>

text \<open>
  C9: \<^verbatim>\<open>UpdateNode(id, title)\<close> answers \<open>NotFound\<close> and leaves the store as it is when no
  row has the id; when the row exists (primary keys being unique) only the title of that
  row is replaced: its id, parent and ordering and every other row stay as they were.
\<close>

theorem updateNode_frame:
  assumes "distinct (map id_pk (rows s))"
  shows "(findByPk (rows s) k = None \<longrightarrow> updateNode s k ttl = (Inl NotFound, s)) \<and>
    (\<forall>n. findByPk (rows s) k = Some n \<longrightarrow>
       updateNode s k ttl =
         (Inr (n\<lparr>title := ttl\<rparr>),
          s\<lparr>rows := map (\<lambda>r. if id_pk r = k then r\<lparr>title := ttl\<rparr> else r) (rows s)\<rparr>))"
proof (intro conjI allI impI)
  show "updateNode s k ttl = (Inl NotFound, s)" if "findByPk (rows s) k = None"
    using that by (simp add: updateNode_def)
next
  fix n assume n: "findByPk (rows s) k = Some n"
  have "save (rows s) (n\<lparr>title := ttl\<rparr>) =
        map (\<lambda>r. if id_pk r = k then r\<lparr>title := ttl\<rparr> else r) (rows s)"
    unfolding save_def
  proof (rule map_cong[OF refl])
    fix r assume "r \<in> set (rows s)"
    then have "id_pk r = k \<Longrightarrow> r = n"
      using findByPk_distinct[OF assms, of r] n by simp
    then show "(if id_pk r = id_pk (n\<lparr>title := ttl\<rparr>) then n\<lparr>title := ttl\<rparr> else r) =
               (if id_pk r = k then r\<lparr>title := ttl\<rparr> else r)"
      using findByPk_Some[OF n] by auto
  qed
  then show "updateNode s k ttl =
         (Inr (n\<lparr>title := ttl\<rparr>),
          s\<lparr>rows := map (\<lambda>r. if id_pk r = k then r\<lparr>title := ttl\<rparr> else r) (rows s)\<rparr>)"
    using n by (simp add: updateNode_def Let_def)
qed

theorem updateNode_frame_witness:
  "distinct (map id_pk (rows two_children)) \<and>
   updateNode two_children 7 ''X'' = (Inl NotFound, two_children) \<and>
   updateNode two_children 2 ''X'' =
     (Inr \<lparr>id_pk = 2, title = ''X'', parent_node_id = Some 1, ordering = 0\<rparr>,
      \<lparr>rows = [root_node,
              \<lparr>id_pk = 2, title = ''X'', parent_node_id = Some 1, ordering = 0\<rparr>,
              \<lparr>id_pk = 3, title = ''B'', parent_node_id = Some 1, ordering = 1\<rparr>],
      seq = 3\<rparr>)"
proof -
  have d: "distinct (map id_pk (rows two_children))"
    by (simp add: two_children_def root_node_def)
  have f7: "findByPk (rows two_children) 7 = None"
    by (simp add: two_children_def root_node_def findByPk_def)
  have f2: "findByPk (rows two_children) 2 =
     Some \<lparr>id_pk = 2, title = ''A'', parent_node_id = Some 1, ordering = 0\<rparr>"
    by (simp add: two_children_def root_node_def findByPk_def)
  from updateNode_frame[OF d, of 7 "''X''"] f7
  have a: "updateNode two_children 7 ''X'' = (Inl NotFound, two_children)" by simp
  from updateNode_frame[OF d, of 2 "''X''"] f2
  have b: "updateNode two_children 2 ''X'' =
     (Inr \<lparr>id_pk = 2, title = ''X'', parent_node_id = Some 1, ordering = 0\<rparr>,
      \<lparr>rows = [root_node,
              \<lparr>id_pk = 2, title = ''X'', parent_node_id = Some 1, ordering = 0\<rparr>,
              \<lparr>id_pk = 3, title = ''B'', parent_node_id = Some 1, ordering = 1\<rparr>],
      seq = 3\<rparr>)"
    by (simp add: two_children_def root_node_def)
  from d a b show ?thesis by simp
qed

section \<open>Reordering: the range check\<close>

text \<open>
  C7: for an existing node whose sibling group has \<open>n\<close> rows, \<^verbatim>\<open>ReorderNode\<close> answers
  \<open>InvalidOrdering\<close> exactly when the new ordering is negative or at least \<open>n\<close>, and the
  store is then unchanged.
\<close>

theorem reorderNode_invalid_iff:
  assumes "findByPk (rows s) k = Some n"
  shows "(fst (reorderNode s k new_ordering) = Inl InvalidOrdering \<longleftrightarrow>
            new_ordering < 0 \<or> new_ordering \<ge> count_rows (rows s) (parent_node_id n)) \<and>
         (fst (reorderNode s k new_ordering) = Inl InvalidOrdering \<longrightarrow>
            snd (reorderNode s k new_ordering) = s)"
  using assms by (auto simp: reorderNode_def Let_def count_rows_def findAllOrdered_def)

theorem reorderNode_invalid_iff_witness:
  "findByPk (rows two_children) 2 =
     Some \<lparr>id_pk = 2, title = ''A'', parent_node_id = Some 1, ordering = 0\<rparr> \<and>
   reorderNode two_children 2 2 = (Inl InvalidOrdering, two_children) \<and>
   reorderNode two_children 2 (- 1) = (Inl InvalidOrdering, two_children) \<and>
   fst (reorderNode two_children 2 1) \<noteq> Inl InvalidOrdering"
proof -
  have f: "findByPk (rows two_children) 2 =
     Some \<lparr>id_pk = 2, title = ''A'', parent_node_id = Some 1, ordering = 0\<rparr>"
    by (simp add: two_children_def findByPk_def root_node_def)
  have c: "count_rows (rows two_children) (Some 1) = 2"
    by (simp add: two_children_def count_rows_def findAll_def root_node_def)
  from reorderNode_invalid_iff[OF f, of 2] c
  have a: "reorderNode two_children 2 2 = (Inl InvalidOrdering, two_children)"
    by (simp add: prod_eq_iff)
  from reorderNode_invalid_iff[OF f, of "- 1"] c
  have b: "reorderNode two_children 2 (- 1) = (Inl InvalidOrdering, two_children)"
    by (simp add: prod_eq_iff)
  from reorderNode_invalid_iff[OF f, of 1] c
  have d: "fst (reorderNode two_children 2 1) \<noteq> Inl InvalidOrdering"
    by simp
  from f a b d show ?thesis by simp
qed

section \<open>Deleting an id that has no row\<close>

text \<open>
  C1: the claim is that \<^verbatim>\<open>DeleteNode\<close> of an id without a row (other than the root id)
  answers \<open>NotFound\<close>. The route has no such check: on the store with the two children,
  where id 5 has no row, it answers with success and the store is unchanged.
\<close>

theorem deleteNode_missing_id_succeeds:
  "findByPk (rows two_children) 5 = None \<and>
   deleteNode 1 two_children 5 = Some (Inr (), two_children) \<and>
   getNode two_children 5 = Inl NotFound"
  by (simp add: deleteNode_def two_children_def findByPk_def findAll_def destroy_def
      root_node_def getNode_def)

section \<open>Moving a node below itself\<close>

lemma on_chain_isDescendant:
  "on_chain t c q \<Longrightarrow> isDescendant t q c = Some (Inr True)"
proof (induction rule: on_chain.induct)
  case here
  show ?case by (subst isDescendant.simps) simp
next
  case (up p r)
  then show ?case by (subst isDescendant.simps) simp
qed

text \<open>
  C3: when the node and the new parent exist, the node is not the root, and the new
  parent is the node itself or has the node on its ancestor chain, \<^verbatim>\<open>MoveNode\<close> answers
  \<open>Cycle\<close> and the store is unchanged.
\<close>

theorem moveNode_cycle:
  assumes "findByPk (rows s) k = Some n" and "findByPk (rows s) np = Some pn"
    and "k \<noteq> 1" and "np = k \<or> on_chain (rows s) k (Some np)"
  shows "moveNode s k np = Some (Inl Cycle, s)"
proof -
  from assms(4) have "on_chain (rows s) k (Some np)"
    by (auto intro: on_chain.here)
  then have "isDescendant (rows s) (Some np) k = Some (Inr True)"
    by (rule on_chain_isDescendant)
  with assms(1-3) show ?thesis by (simp add: moveNode_def)
qed

theorem moveNode_cycle_witness:
  "moveNode chain_store 2 4 = Some (Inl Cycle, chain_store) \<and>
   moveNode chain_store 2 2 = Some (Inl Cycle, chain_store)"
proof -
  have f2: "findByPk (rows chain_store) 2 =
     Some \<lparr>id_pk = 2, title = ''A'', parent_node_id = Some 1, ordering = 0\<rparr>"
    by (simp add: chain_store_def findByPk_def root_node_def)
  have f3: "findByPk (rows chain_store) 3 =
     Some \<lparr>id_pk = 3, title = ''B'', parent_node_id = Some 2, ordering = 0\<rparr>"
    by (simp add: chain_store_def findByPk_def root_node_def)
  have f4: "findByPk (rows chain_store) 4 =
     Some \<lparr>id_pk = 4, title = ''C'', parent_node_id = Some 3, ordering = 0\<rparr>"
    by (simp add: chain_store_def findByPk_def root_node_def)
  have "on_chain (rows chain_store) 2 (Some 2)" by (rule on_chain.here)
  then have "on_chain (rows chain_store) 2 (Some 3)"
    using on_chain.up[OF f3, of 2] by simp
  then have c: "on_chain (rows chain_store) 2 (Some 4)"
    using on_chain.up[OF f4, of 2] by simp
  have "moveNode chain_store 2 4 = Some (Inl Cycle, chain_store)"
    using moveNode_cycle[OF f2 f4] c by simp
  moreover have "moveNode chain_store 2 2 = Some (Inl Cycle, chain_store)"
    using moveNode_cycle[OF f2 f2] by simp
  ultimately show ?thesis by simp
qed

section \<open>Moving a node\<close>

lemma to_root_unique: "to_root t q k \<Longrightarrow> to_root t q k' \<Longrightarrow> k = k'"
proof (induction arbitrary: k' rule: to_root.induct)
  case top
  then show ?case by (auto elim: to_root.cases)
next
  case (step p r k)
  from step.prems obtain j where "k' = Suc j" "to_root t (parent_node_id r) j"
    using step.hyps(1) by (auto elim: to_root.cases)
  with step.IH show ?case by simp
qed

lemma on_chain_to_root:
  "on_chain t c q \<Longrightarrow> to_root t q k \<Longrightarrow> \<exists>j\<le>k. to_root t (Some c) j"
proof (induction arbitrary: k rule: on_chain.induct)
  case here
  then show ?case by auto
next
  case (up p r)
  from up.prems obtain j where "k = Suc j" "to_root t (parent_node_id r) j"
    using up.hyps(1) by (auto elim: to_root.cases)
  with up.IH[of j] show ?case by (auto intro: le_SucI)
qed

lemma to_root_isDescendant:
  "to_root t q k \<Longrightarrow> \<not> on_chain t c q \<Longrightarrow> isDescendant t q c = Some (Inr False)"
proof (induction rule: to_root.induct)
  case top
  show ?case by (subst isDescendant.simps) simp
next
  case (step p r k)
  have "p \<noteq> c" using step.prems by (auto intro: on_chain.here)
  moreover have "\<not> on_chain t c (parent_node_id r)"
    using step.prems step.hyps(1) by (auto intro: on_chain.up)
  ultimately show ?case using step by (subst isDescendant.simps) simp
qed

lemma reaches_root_to_root: "reaches_root d t q \<Longrightarrow> \<exists>k. to_root t q k"
proof (induction d t q rule: reaches_root.induct)
  case (1 d t)
  show ?case by (auto intro: to_root.top)
next
  case (2 t p)
  then show ?case by simp
next
  case (3 d t p)
  then show ?case by (auto split: option.splits intro: to_root.step)
qed

lemma wf_tree_to_root:
  "wf_tree t \<Longrightarrow> findByPk t k = Some n \<Longrightarrow> \<exists>j. to_root t (Some k) j"
  using findByPk_Some[of t k n] reaches_root_to_root unfolding wf_tree_def by blast

lemma moveNode_no_cycle:
  assumes wf: "wf_tree (rows s)"
    and n: "findByPk (rows s) k = Some n" and pn: "findByPk (rows s) np = Some pn"
    and k: "k \<noteq> 1" and nc: "\<not> on_chain (rows s) k (Some np)"
  shows "moveNode s k np =
     Some (Inr (), s\<lparr>rows := map (moved k np (count_rows (rows s) (Some np))) (rows s)\<rparr>)"
proof -
  obtain j where "to_root (rows s) (Some np) j"
    using wf_tree_to_root[OF wf pn] by blast
  then have d: "isDescendant (rows s) (Some np) k = Some (Inr False)"
    using nc by (rule to_root_isDescendant)
  let ?c = "count_rows (rows s) (Some np)"
  have dist: "distinct (map id_pk (rows s))" using wf by (simp add: wf_tree_def)
  have "save (rows s) (n\<lparr>parent_node_id := Some np, ordering := ?c\<rparr>) =
        map (moved k np ?c) (rows s)"
    unfolding save_def moved_def
  proof (rule map_cong[OF refl])
    fix r assume "r \<in> set (rows s)"
    then have "id_pk r = k \<Longrightarrow> r = n"
      using findByPk_distinct[OF dist, of r] n by simp
    then show "(if id_pk r = id_pk (n\<lparr>parent_node_id := Some np, ordering := ?c\<rparr>)
                then n\<lparr>parent_node_id := Some np, ordering := ?c\<rparr> else r) =
               (if id_pk r = k then r\<lparr>parent_node_id := Some np, ordering := ?c\<rparr> else r)"
      using findByPk_Some[OF n] by auto
  qed
  with n pn k d show ?thesis by (simp add: moveNode_def Let_def)
qed

lemma two_children_wf: "wf_tree (rows two_children)"
  by (simp add: wf_tree_def two_children_def root_node_def findByPk_def)

lemma parent_not_below:
  assumes "to_root t (Some k) j" and "findByPk t k = Some n" and "parent_node_id n = Some p"
  shows "\<not> on_chain t k (Some p) \<and> (\<exists>pn. findByPk t p = Some pn)"
proof -
  from assms obtain i where i: "j = Suc i" "to_root t (Some p) i"
    by (auto elim: to_root.cases)
  have "\<not> on_chain t k (Some p)"
  proof
    assume "on_chain t k (Some p)"
    then obtain j' where "j' \<le> i" "to_root t (Some k) j'"
      using on_chain_to_root i(2) by blast
    with to_root_unique[OF assms(1), of j'] i(1) show False by simp
  qed
  moreover from i(2) have "\<exists>pn. findByPk t p = Some pn"
    by (auto elim: to_root.cases)
  ultimately show ?thesis by simp
qed

text \<open>
  C10: in a well-formed table, moving a non-root node to the parent \<open>p\<close> it already has,
  whose children are dense with \<open>m\<close> rows, succeeds and gives the node the ordering \<open>m\<close>;
  the group keeps its \<open>m\<close> rows, its orderings become \<open>{0..m-1}\<close> without the node's old
  ordering plus \<open>m\<close>, and it is no longer dense.
\<close>

theorem moveNode_same_parent:
  assumes wf: "wf_tree (rows s)"
    and n: "findByPk (rows s) k = Some n" and par: "parent_node_id n = Some p"
    and k: "k \<noteq> 1" and dn: "dense (rows s) (Some p)"
  shows "\<exists>s'. moveNode s k p = Some (Inr (), s') \<and>
           findByPk (rows s') k = Some (n\<lparr>ordering := count_rows (rows s) (Some p)\<rparr>) \<and>
           count_rows (rows s') (Some p) = count_rows (rows s) (Some p) \<and>
           ordering ` set (findAll (rows s') (Some p)) =
             ({0 ..< count_rows (rows s) (Some p)} - {ordering n})
               \<union> {count_rows (rows s) (Some p)} \<and>
           \<not> dense (rows s') (Some p)"
proof -
  let ?t = "rows s"
  let ?cs = "findAll ?t (Some p)"
  define m where "m = count_rows ?t (Some p)"
  let ?g = "moved k p m"
  obtain j where j: "to_root ?t (Some k) j" using wf_tree_to_root[OF wf n] by blast
  from parent_not_below[OF j n par] obtain pn
    where nc: "\<not> on_chain ?t k (Some p)" and pn: "findByPk ?t p = Some pn" by blast
  have mv: "moveNode s k p = Some (Inr (), s\<lparr>rows := map ?g ?t\<rparr>)"
    unfolding m_def using wf n pn k nc by (rule moveNode_no_cycle)
  have dist: "distinct (map id_pk ?t)" using wf by (simp add: wf_tree_def)
  have nmem: "n \<in> set ?t" "id_pk n = k" using findByPk_Some[OF n] by simp_all
  have only: "r = n" if "r \<in> set ?t" "id_pk r = k" for r
    using findByPk_distinct[OF dist that(1)] that(2) n by simp
  have gpar: "parent_node_id (?g r) = Some p \<longleftrightarrow> parent_node_id r = Some p"
    if "r \<in> set ?t" for r
    using only[OF that] par by (auto simp: moved_def)
  have fa: "findAll (map ?g ?t) (Some p) = map ?g ?cs"
    unfolding findAll_def filter_map o_def
    using gpar by (auto intro!: arg_cong[where f="map ?g"] filter_cong)
  have "length (findAll (map ?g ?t) (Some p)) = length ?cs"
    by (simp only: fa length_map)
  then have len: "count_rows (map ?g ?t) (Some p) = m"
    unfolding m_def count_rows_def by (rule arg_cong)
  have fk: "findByPk (map ?g ?t) k = Some (n\<lparr>ordering := m\<rparr>)"
    using n nmem par by (subst findByPk_map) (simp_all add: moved_def)
  have ncs: "n \<in> set ?cs" using nmem par by (simp add: findAll_def)
  have dord: "distinct (map ordering ?cs)" and sord: "ordering ` set ?cs = {0 ..< m}"
    using dn by (simp_all add: dense_def Let_def count_rows_def m_def)
  have inj: "inj_on ordering (set ?cs)" using dord by (simp add: distinct_map)
  have img: "ordering ` set (map ?g ?cs) = ({0 ..< m} - {ordering n}) \<union> {m}"
  proof -
    have "ordering ` set (map ?g ?cs) = ordering ` (set ?cs - {n}) \<union> {m}"
    proof (intro equalityI subsetI)
      fix x assume "x \<in> ordering ` set (map ?g ?cs)"
      then obtain r where r: "r \<in> set ?cs" "x = ordering (?g r)" by auto
      then have "r \<in> set ?t" by (simp add: findAll_def)
      show "x \<in> ordering ` (set ?cs - {n}) \<union> {m}"
      proof (cases "id_pk r = k")
        case True then show ?thesis using r by (simp add: moved_def)
      next
        case False
        then have "r \<noteq> n" using nmem by auto
        then show ?thesis using r False by (auto simp: moved_def)
      qed
    next
      fix x assume "x \<in> ordering ` (set ?cs - {n}) \<union> {m}"
      then consider r where "r \<in> set ?cs" "r \<noteq> n" "x = ordering r" | "x = m" by auto
      then show "x \<in> ordering ` set (map ?g ?cs)"
      proof cases
        case 1
        then have "r \<in> set ?t" by (simp add: findAll_def)
        then have "id_pk r \<noteq> k" using only 1(2) by auto
        then have "ordering (?g r) = x" using 1 by (simp add: moved_def)
        then show ?thesis using 1(1) by force
      next
        case 2
        have "ordering (?g n) = x" using 2 nmem by (simp add: moved_def)
        then show ?thesis using ncs by force
      qed
    qed
    also have "ordering ` (set ?cs - {n}) = ordering ` set ?cs - {ordering n}"
      using inj_on_image_set_diff[OF inj, of "set ?cs" "{n}"] ncs by simp
    finally show ?thesis using sord by simp
  qed
  have nd: "\<not> dense (map ?g ?t) (Some p)"
  proof
    assume "dense (map ?g ?t) (Some p)"
    then have "ordering ` set (findAll (map ?g ?t) (Some p)) =
               {0 ..< count_rows (map ?g ?t) (Some p)}"
      by (simp add: dense_def Let_def count_rows_def)
    then have "ordering ` set (map ?g ?cs) = {0 ..< m}"
      by (simp only: fa len)
    with img show False by auto
  qed
  have "ordering ` set (findAll (map ?g ?t) (Some p)) = ({0 ..< m} - {ordering n}) \<union> {m}"
    using img by (simp only: fa)
  then show ?thesis
    using mv fk len nd unfolding m_def by simp
qed

theorem moveNode_same_parent_witness:
  "wf_tree (rows two_children) \<and> dense (rows two_children) (Some 1) \<and>
   moveNode two_children 2 1 =
     Some (Inr (),
       \<lparr>rows = [root_node,
              \<lparr>id_pk = 2, title = ''A'', parent_node_id = Some 1, ordering = 2\<rparr>,
              \<lparr>id_pk = 3, title = ''B'', parent_node_id = Some 1, ordering = 1\<rparr>],
        seq = 3\<rparr>) \<and>
   \<not> dense [root_node,
              \<lparr>id_pk = 2, title = ''A'', parent_node_id = Some 1, ordering = 2\<rparr>,
              \<lparr>id_pk = 3, title = ''B'', parent_node_id = Some 1, ordering = 1\<rparr>] (Some 1)"
proof -
  have f2: "findByPk (rows two_children) 2 =
     Some \<lparr>id_pk = 2, title = ''A'', parent_node_id = Some 1, ordering = 0\<rparr>"
    by (simp add: two_children_def findByPk_def root_node_def)
  have dn: "dense (rows two_children) (Some 1)"
    by (auto simp: dense_def two_children_def findAll_def root_node_def)
  have mv: "moveNode two_children 2 1 =
     Some (Inr (),
       \<lparr>rows = [root_node,
              \<lparr>id_pk = 2, title = ''A'', parent_node_id = Some 1, ordering = 2\<rparr>,
              \<lparr>id_pk = 3, title = ''B'', parent_node_id = Some 1, ordering = 1\<rparr>],
        seq = 3\<rparr>)"
    by (simp add: moveNode_def two_children_def findByPk_def root_node_def isDescendant.simps
        count_rows_def findAll_def save_def)
  from moveNode_same_parent[OF two_children_wf f2 _ _ dn] mv
  have "\<not> dense [root_node,
              \<lparr>id_pk = 2, title = ''A'', parent_node_id = Some 1, ordering = 2\<rparr>,
              \<lparr>id_pk = 3, title = ''B'', parent_node_id = Some 1, ordering = 1\<rparr>] (Some 1)"
    by auto
  with two_children_wf dn mv show ?thesis by simp
qed

section \<open>Deleting a subtree\<close>

lemma subtree_trans: "y \<in> subtree t x \<Longrightarrow> x \<in> subtree t k \<Longrightarrow> y \<in> subtree t k"
  by (induction rule: subtree.induct) (auto intro: subtree.child)

lemma subtree_mono: "y \<in> subtree t' x \<Longrightarrow> set t' \<subseteq> set t \<Longrightarrow> y \<in> subtree t x"
  by (induction rule: subtree.induct) (auto intro: subtree.intros)

lemma subtree_unfold:
  "subtree t k = insert k (\<Union>c \<in> set (findAll t (Some k)). subtree t (id_pk c))"
proof (intro equalityI subsetI)
  fix y assume "y \<in> subtree t k"
  then show "y \<in> insert k (\<Union>c \<in> set (findAll t (Some k)). subtree t (id_pk c))"
  proof (induction rule: subtree.induct)
    case self
    show ?case by simp
  next
    case (child x r)
    show ?case
    proof (cases "x = k")
      case True
      then have "r \<in> set (findAll t (Some k))" using child by (simp add: findAll_def)
      moreover have "id_pk r \<in> subtree t (id_pk r)" by (rule subtree.self)
      ultimately show ?thesis by blast
    next
      case False
      then obtain c where "c \<in> set (findAll t (Some k))" "x \<in> subtree t (id_pk c)"
        using child.IH by auto
      then show ?thesis using child.hyps(2,3) by (blast intro: subtree.child)
    qed
  qed
next
  fix y assume "y \<in> insert k (\<Union>c \<in> set (findAll t (Some k)). subtree t (id_pk c))"
  then consider "y = k" | c where "c \<in> set (findAll t (Some k))" "y \<in> subtree t (id_pk c)"
    by auto
  then show "y \<in> subtree t k"
  proof cases
    case 1 then show ?thesis by (simp add: subtree.self)
  next
    case 2
    then have "id_pk c \<in> subtree t k"
      by (auto simp: findAll_def intro: subtree.child[OF subtree.self])
    with 2(2) show ?thesis by (rule subtree_trans)
  qed
qed

lemma subtree_after_removal:
  assumes "y \<in> subtree t x"
    and closed: "\<And>a r. a \<in> S \<Longrightarrow> r \<in> set t \<Longrightarrow> parent_node_id r = Some a \<Longrightarrow> id_pk r \<in> S"
  shows "y \<in> S \<or> y \<in> subtree (filter (\<lambda>r. id_pk r \<notin> S) t) x"
  using assms(1)
proof (induction rule: subtree.induct)
  case self
  show ?case by (simp add: subtree.self)
next
  case (child a r)
  show ?case
  proof (cases "id_pk r \<in> S")
    case True then show ?thesis by simp
  next
    case False
    then have "a \<notin> S" using closed child.hyps(2,3) by blast
    then have "a \<in> subtree (filter (\<lambda>r. id_pk r \<notin> S) t) x" using child.IH by simp
    moreover have "r \<in> set (filter (\<lambda>r. id_pk r \<notin> S) t)" using False child.hyps(2) by simp
    ultimately show ?thesis using child.hyps(3) by (blast intro: subtree.child)
  qed
qed

lemma fold_option_removes:
  assumes IH: "\<And>k t t'. f k t = Some t' \<Longrightarrow> t' = filter (\<lambda>r. id_pk r \<notin> subtree t k) t"
  shows "fold_option (\<lambda>c. f (id_pk c)) cs t = Some t1 \<Longrightarrow>
         t1 = filter (\<lambda>r. id_pk r \<notin> (\<Union>c \<in> set cs. subtree t (id_pk c))) t"
proof (induction cs arbitrary: t)
  case Nil
  then show ?case by simp
next
  case (Cons c cs)
  from Cons.prems obtain t2 where t2: "f (id_pk c) t = Some t2"
    and rest: "fold_option (\<lambda>c. f (id_pk c)) cs t2 = Some t1"
    by (auto split: option.splits)
  let ?S = "subtree t (id_pk c)"
  have t2_eq: "t2 = filter (\<lambda>r. id_pk r \<notin> ?S) t" using IH[OF t2] .
  have t1_eq: "t1 = filter (\<lambda>r. id_pk r \<notin> (\<Union>c \<in> set cs. subtree t2 (id_pk c))) t2"
    using Cons.IH[OF rest] .
  have sub: "set t2 \<subseteq> set t" using t2_eq by auto
  have same: "(y \<in> ?S \<or> y \<in> subtree t2 x) \<longleftrightarrow> (y \<in> ?S \<or> y \<in> subtree t x)" for x y
  proof
    assume "y \<in> ?S \<or> y \<in> subtree t2 x"
    then show "y \<in> ?S \<or> y \<in> subtree t x" using subtree_mono[OF _ sub] by blast
  next
    assume "y \<in> ?S \<or> y \<in> subtree t x"
    then show "y \<in> ?S \<or> y \<in> subtree t2 x"
      using subtree_after_removal[of y t x ?S] unfolding t2_eq
      by (blast intro: subtree.child)
  qed
  have "t1 = filter (\<lambda>r. id_pk r \<notin> ?S \<and> id_pk r \<notin> (\<Union>c \<in> set cs. subtree t2 (id_pk c))) t"
    unfolding t1_eq by (subst t2_eq) (simp add: conj_commute)
  also have "\<dots> = filter (\<lambda>r. id_pk r \<notin> (\<Union>c \<in> set (c # cs). subtree t (id_pk c))) t"
    using same by (intro filter_cong refl) auto
  finally show ?case .
qed

lemma deleteNodeAndDescendants_removes:
  "deleteNodeAndDescendants d k t = Some t' \<Longrightarrow> t' = filter (\<lambda>r. id_pk r \<notin> subtree t k) t"
proof (induction d arbitrary: k t t')
  case 0
  then show ?case by simp
next
  case (Suc d)
  from Suc.prems obtain t1
    where t1: "fold_option (\<lambda>c. deleteNodeAndDescendants d (id_pk c)) (findAll t (Some k)) t = Some t1"
      and t': "t' = destroy t1 k"
    by (auto split: option.splits)
  have "t1 = filter (\<lambda>r. id_pk r \<notin> (\<Union>c \<in> set (findAll t (Some k)). subtree t (id_pk c))) t"
    using fold_option_removes[of "deleteNodeAndDescendants d", OF Suc.IH t1] .
  then have "t' = filter (\<lambda>r. id_pk r \<notin>
        insert k (\<Union>c \<in> set (findAll t (Some k)). subtree t (id_pk c))) t"
    unfolding t' destroy_def by (auto intro: filter_cong)
  then show ?case by (simp only: subtree_unfold[symmetric])
qed

lemma height_le_subset: "height_le h t x \<Longrightarrow> set t' \<subseteq> set t \<Longrightarrow> height_le h t' x"
  by (induction h arbitrary: x) auto

lemma height_le_Suc: "height_le h t x \<Longrightarrow> height_le (Suc h) t x"
  by (induction h arbitrary: x) auto

lemma height_le_mono: "height_le h t x \<Longrightarrow> h \<le> h' \<Longrightarrow> height_le h' t x"
  by (induction h' arbitrary: h) (auto simp: le_Suc_eq intro: height_le_Suc simp del: height_le.simps)

lemma fold_option_returns:
  assumes IH: "\<And>k t. height_le d t k \<Longrightarrow> \<exists>t'. deleteNodeAndDescendants d k t = Some t'"
  shows "\<forall>c \<in> set cs. height_le d t0 (id_pk c) \<Longrightarrow> set t \<subseteq> set t0 \<Longrightarrow>
         \<exists>t1. fold_option (\<lambda>c. deleteNodeAndDescendants d (id_pk c)) cs t = Some t1"
proof (induction cs arbitrary: t)
  case Nil
  show ?case by simp
next
  case (Cons c cs)
  have "height_le d t (id_pk c)" using Cons.prems by (auto intro: height_le_subset)
  then obtain t2 where t2: "deleteNodeAndDescendants d (id_pk c) t = Some t2"
    using IH by blast
  then have "set t2 \<subseteq> set t" using deleteNodeAndDescendants_removes[OF t2] by auto
  then have "set t2 \<subseteq> set t0" using Cons.prems(2) by blast
  from Cons.IH[OF _ this] Cons.prems(1) t2 show ?case by simp
qed

lemma deleteNodeAndDescendants_returns:
  "height_le d t k \<Longrightarrow> \<exists>t'. deleteNodeAndDescendants d k t = Some t'"
proof (induction d arbitrary: k t)
  case 0
  then show ?case by simp
next
  case (Suc d)
  have "\<forall>c \<in> set (findAll t (Some k)). height_le d t (id_pk c)"
    using Suc.prems by (auto simp: findAll_def)
  from fold_option_returns[of d, OF Suc.IH this subset_refl]
  show ?case by auto
qed


lemma reaches_root_bound: "reaches_root d t q \<Longrightarrow> \<exists>k\<le>d. to_root t q k"
proof (induction d t q rule: reaches_root.induct)
  case (1 d t)
  show ?case by (auto intro: to_root.top)
next
  case (2 t p)
  then show ?case by simp
next
  case (3 d t p)
  then obtain r where r: "findByPk t p = Some r" "reaches_root d t (parent_node_id r)"
    by (auto split: option.splits)
  then obtain k where "k \<le> d" "to_root t (parent_node_id r) k" using 3 by auto
  then have "Suc k \<le> Suc d" "to_root t (Some p) (Suc k)"
    using r(1) by (auto intro: to_root.step)
  then show ?case by blast
qed

lemma depth_height:
  assumes dist: "distinct (map id_pk t)"
    and bound: "\<And>r. r \<in> set t \<Longrightarrow> \<exists>j\<le>D. to_root t (Some (id_pk r)) j"
  shows "to_root t (Some x) j \<Longrightarrow> j \<le> D \<Longrightarrow> j + n = Suc D \<Longrightarrow> height_le n t x"
proof (induction n arbitrary: x j)
  case 0
  then show ?case by simp
next
  case (Suc n)
  have "height_le n t (id_pk r)" if r: "r \<in> set t" "parent_node_id r = Some x" for r
  proof -
    have "findByPk t (id_pk r) = Some r" using findByPk_distinct[OF dist r(1)] .
    then have d: "to_root t (Some (id_pk r)) (Suc j)"
      using Suc.prems(1) r(2) by (auto intro: to_root.step)
    obtain j' where "j' \<le> D" "to_root t (Some (id_pk r)) j'" using bound[OF r(1)] by blast
    then have "Suc j \<le> D" using to_root_unique[OF d] by auto
    then show ?thesis using Suc.IH[OF d] Suc.prems(3) by simp
  qed
  then show ?case by simp
qed

lemma wf_tree_height:
  assumes wf: "wf_tree t" and n: "findByPk t k = Some n" and d: "length t < d"
  shows "height_le d t k"
proof -
  have dist: "distinct (map id_pk t)" using wf by (simp add: wf_tree_def)
  have bound: "\<exists>j\<le>length t. to_root t (Some (id_pk r)) j" if "r \<in> set t" for r
    using wf that reaches_root_bound unfolding wf_tree_def by blast
  from findByPk_Some[OF n] bound obtain j where j: "j \<le> length t" "to_root t (Some k) j"
    by blast
  have "height_le (Suc (length t) - j) t k"
    using depth_height[OF dist bound j(2) j(1)] j(1) by simp
  then show ?thesis using d by (auto intro: height_le_mono)
qed

lemma on_chain_subtree: "on_chain t k q \<Longrightarrow> q = Some x \<Longrightarrow> x \<in> subtree t k"
proof (induction arbitrary: x rule: on_chain.induct)
  case here
  then show ?case by (simp add: subtree.self)
next
  case (up p r)
  from up.hyps(2) obtain y where y: "parent_node_id r = Some y"
    by (cases "parent_node_id r") (auto simp: on_chain_None)
  with up.IH have "y \<in> subtree t k" by simp
  then have "id_pk r \<in> subtree t k"
    using findByPk_Some[OF up.hyps(1)] y by (auto intro: subtree.child)
  then show ?case using findByPk_Some[OF up.hyps(1)] up.prems by simp
qed

lemma subtree_on_chain:
  "x \<in> subtree t k \<Longrightarrow> distinct (map id_pk t) \<Longrightarrow> on_chain t k (Some x)"
proof (induction rule: subtree.induct)
  case self
  show ?case by (rule on_chain.here)
next
  case (child x r)
  have "findByPk t (id_pk r) = Some r" using findByPk_distinct[OF child.prems child.hyps(2)] .
  then show ?case using child by (auto intro: on_chain.up)
qed

lemma deleteNodeAndDescendants_wf:
  assumes wf: "wf_tree t" and n: "findByPk t k = Some n" and d: "length t < d"
  shows "deleteNodeAndDescendants d k t =
           Some (filter (\<lambda>r. \<not> on_chain t k (Some (id_pk r))) t)"
proof -
  obtain t' where t': "deleteNodeAndDescendants d k t = Some t'"
    using deleteNodeAndDescendants_returns[OF wf_tree_height[OF wf n d]] by blast
  have dist: "distinct (map id_pk t)" using wf by (simp add: wf_tree_def)
  have "x \<in> subtree t k \<longleftrightarrow> on_chain t k (Some x)" for x
    using on_chain_subtree subtree_on_chain[OF _ dist] by blast
  then show ?thesis
    using deleteNodeAndDescendants_removes[OF t'] t' by simp
qed

text \<open>
  C4: in a well-formed table, \<^verbatim>\<open>DeleteNode\<close> of an existing node other than the root
  returns (a call depth above the number of rows is enough) and removes exactly the rows
  of the node and of its descendants, the rows that meet the node on their ancestor
  chain. Afterwards \<^verbatim>\<open>GetNode\<close> answers \<open>NotFound\<close> for the node and each descendant, and
  every other row is still there, unchanged.
\<close>

theorem deleteNode_removes_subtree:
  assumes "wf_tree (rows s)" and "findByPk (rows s) k = Some n" and "k \<noteq> 1"
    and "length (rows s) < d"
  shows "\<exists>s'. deleteNode d s k = Some (Inr (), s') \<and> seq s' = seq s \<and>
           rows s' = filter (\<lambda>r. \<not> on_chain (rows s) k (Some (id_pk r))) (rows s) \<and>
           (\<forall>x. on_chain (rows s) k (Some x) \<longrightarrow> getNode s' x = Inl NotFound) \<and>
           getNode s' k = Inl NotFound \<and>
           (\<forall>r \<in> set (rows s). \<not> on_chain (rows s) k (Some (id_pk r)) \<longrightarrow>
                findByPk (rows s') (id_pk r) = Some r)"
proof -
  let ?t' = "filter (\<lambda>r. \<not> on_chain (rows s) k (Some (id_pk r))) (rows s)"
  have del: "deleteNode d s k = Some (Inr (), s\<lparr>rows := ?t'\<rparr>)"
    using deleteNodeAndDescendants_wf[OF assms(1,2,4)] assms(3) by (simp add: deleteNode_def)
  have gone: "getNode (s\<lparr>rows := ?t'\<rparr>) x = Inl NotFound" if "on_chain (rows s) k (Some x)" for x
  proof -
    have "findByPk ?t' x = None" using that by (auto simp: findByPk_None)
    then show ?thesis by (simp add: getNode_def)
  qed
  have dist: "distinct (map id_pk ?t')"
    using assms(1) by (simp add: wf_tree_def distinct_map_filter)
  have kept: "findByPk ?t' (id_pk r) = Some r"
    if "r \<in> set (rows s)" "\<not> on_chain (rows s) k (Some (id_pk r))" for r
    using that by (intro findByPk_distinct[OF dist]) simp
  show ?thesis
    using del gone gone[OF on_chain.here] kept by simp
qed

theorem deleteNode_removes_subtree_witness:
  "wf_tree (rows chain_store) \<and>
   deleteNode 5 chain_store 3 =
     Some (Inr (),
       \<lparr>rows = [root_node,
              \<lparr>id_pk = 2, title = ''A'', parent_node_id = Some 1, ordering = 0\<rparr>],
        seq = 4\<rparr>) \<and>
   getNode \<lparr>rows = [root_node,
              \<lparr>id_pk = 2, title = ''A'', parent_node_id = Some 1, ordering = 0\<rparr>],
        seq = 4\<rparr> 4 = Inl NotFound"
proof -
  have wf: "wf_tree (rows chain_store)"
    by (simp add: wf_tree_def chain_store_def root_node_def findByPk_def)
  have f3: "findByPk (rows chain_store) 3 =
     Some \<lparr>id_pk = 3, title = ''B'', parent_node_id = Some 2, ordering = 0\<rparr>"
    by (simp add: chain_store_def findByPk_def root_node_def)
  have f4: "findByPk (rows chain_store) 4 =
     Some \<lparr>id_pk = 4, title = ''C'', parent_node_id = Some 3, ordering = 0\<rparr>"
    by (simp add: chain_store_def findByPk_def root_node_def)
  have f2: "findByPk (rows chain_store) 2 =
     Some \<lparr>id_pk = 2, title = ''A'', parent_node_id = Some 1, ordering = 0\<rparr>"
    by (simp add: chain_store_def findByPk_def root_node_def)
  have f1: "findByPk (rows chain_store) 1 = Some root_node"
    by (simp add: chain_store_def findByPk_def root_node_def)
  have c1: "\<not> on_chain (rows chain_store) 3 (Some 1)"
    by (simp add: on_chain_Some f1) (simp add: root_node_def on_chain_None)
  have c2: "\<not> on_chain (rows chain_store) 3 (Some 2)"
    using c1 by (simp add: on_chain_Some f2)
  have c3: "on_chain (rows chain_store) 3 (Some 3)" by (rule on_chain.here)
  have c4: "on_chain (rows chain_store) 3 (Some 4)"
    using c3 by (simp add: on_chain_Some f4)
  have l: "length (rows chain_store) < 5" by (simp add: chain_store_def)
  have flt: "filter (\<lambda>r. \<not> on_chain (rows chain_store) 3 (Some (id_pk r))) (rows chain_store) =
     [root_node, \<lparr>id_pk = 2, title = ''A'', parent_node_id = Some 1, ordering = 0\<rparr>]"
    using c1 c2 c3 c4 by (simp add: chain_store_def root_node_def)
  from deleteNode_removes_subtree[OF wf f3 _ l]
  obtain s' where del: "deleteNode 5 chain_store 3 = Some (Inr (), s')"
    and sq: "seq s' = seq chain_store"
    and rs: "rows s' =
      filter (\<lambda>r. \<not> on_chain (rows chain_store) 3 (Some (id_pk r))) (rows chain_store)"
    and gone: "\<forall>x. on_chain (rows chain_store) 3 (Some x) \<longrightarrow> getNode s' x = Inl NotFound"
    by auto
  have s': "s' = \<lparr>rows = [root_node,
              \<lparr>id_pk = 2, title = ''A'', parent_node_id = Some 1, ordering = 0\<rparr>],
        seq = 4\<rparr>"
    using sq rs flt by (cases s') (simp add: chain_store_def)
  from gone c4 have "getNode s' 4 = Inl NotFound" by blast
  with wf del show ?thesis unfolding s' by simp
qed

section \<open>Reordering among siblings\<close>

lemma renumber_map: "renumber t xs i = map (renumbered xs i) t"
proof (induction xs arbitrary: t i)
  case Nil
  show ?case by (simp add: map_idI)
next
  case (Cons x xs)
  show ?case by (simp add: Cons.IH update_ordering_def)
qed

lemma renumbered_fields [simp]:
  "id_pk (renumbered xs i r) = id_pk r"
  "parent_node_id (renumbered xs i r) = parent_node_id r"
  "title (renumbered xs i r) = title r"
  by (induction xs arbitrary: i r) simp_all

lemma renumbered_notin: "id_pk r \<notin> id_pk ` set xs \<Longrightarrow> renumbered xs i r = r"
  by (induction xs arbitrary: i) simp_all

lemma renumbered_at:
  "distinct (map id_pk xs) \<Longrightarrow> j < length xs \<Longrightarrow> id_pk r = id_pk (xs ! j) \<Longrightarrow>
   renumbered xs i r = r\<lparr>ordering := i + int j\<rparr>"
proof (induction xs arbitrary: i j r)
  case Nil
  then show ?case by simp
next
  case (Cons x xs)
  show ?case
  proof (cases j)
    case 0
    then show ?thesis using Cons.prems by (simp add: renumbered_notin)
  next
    case (Suc j')
    have "xs ! j' \<in> set xs" using Cons.prems(2) Suc by simp
    then have "id_pk (xs ! j') \<in> id_pk ` set xs" by (rule imageI)
    then have "id_pk r \<noteq> id_pk x" using Cons.prems(1,3) Suc by auto
    then show ?thesis using Cons.IH[of j' r "i + 1"] Cons.prems Suc by simp
  qed
qed

lemma sorted_key_unique:
  assumes "sorted (map f xs)" "distinct (map f xs)" "sorted (map f ys)" "distinct (map f ys)"
    and "set xs = set ys"
  shows "xs = ys"
proof -
  have "set (map f xs) = set (map f ys)" using assms(5) by simp
  then have "map f xs = map f ys"
    using assms(1-4) by (intro sorted_distinct_set_unique)
  moreover have "inj_on f (set xs \<union> set ys)"
    using assms(2,5) by (simp add: distinct_map)
  ultimately show ?thesis by (simp add: inj_on_map_eq_map)
qed

lemma dense_sorted_nth:
  fixes xs :: "int list"
  assumes "sorted xs" "distinct xs" "set xs = {0 ..< int (length xs)}"
  shows "xs = map int [0 ..< length xs]"
proof -
  have "set (map int [0 ..< length xs]) = {0 ..< int (length xs)}"
    by (simp add: image_int_atLeastLessThan)
  moreover have "sorted (map int [0 ..< length xs])"
    by (simp add: sorted_map sorted_wrt_iff_nth_less)
  moreover have "distinct (map int [0 ..< length xs])"
    by (simp add: distinct_map inj_on_def)
  ultimately show ?thesis using assms by (intro sorted_distinct_set_unique) simp_all
qed

lemma filter_take_drop:
  assumes "distinct (map f xs)" "i < length xs"
  shows "filter (\<lambda>x. f x \<noteq> f (xs ! i)) xs = take i xs @ drop (Suc i) xs"
proof -
  have xs: "xs = take i xs @ xs ! i # drop (Suc i) xs"
    using assms(2) by (rule id_take_nth_drop)
  have d: "distinct (map f (take i xs @ xs ! i # drop (Suc i) xs))"
    using assms(1) xs by simp
  have a: "\<forall>x \<in> set (take i xs). f x \<noteq> f (xs ! i)" using d by (auto simp: image_iff)
  have b: "\<forall>x \<in> set (drop (Suc i) xs). f x \<noteq> f (xs ! i)" using d by (auto simp: image_iff)
  have "filter (\<lambda>x. f x \<noteq> f (xs ! i)) (take i xs @ xs ! i # drop (Suc i) xs) =
        take i xs @ drop (Suc i) xs"
    using a b by (simp add: filter_id_conv)
  then show ?thesis using xs by simp
qed


lemma distinct_map_sort_key:
  "distinct (map f xs) \<Longrightarrow> distinct (map f (sort_key g xs))"
  by (simp add: distinct_map)

lemma siblings_dense:
  assumes dist: "distinct (map id_pk t)" and n: "findByPk t k = Some n"
    and dn: "dense t (parent_node_id n)"
  defines "sibs \<equiv> findAllOrdered t (parent_node_id n)"
  shows "map ordering sibs = map int [0 ..< length sibs]"
    and "distinct (map id_pk sibs)"
    and "set sibs = set (findAll t (parent_node_id n))"
    and "0 \<le> ordering n" and "nat (ordering n) < length sibs"
    and "sibs ! nat (ordering n) = n"
proof -
  let ?cs = "findAll t (parent_node_id n)"
  show set_eq: "set sibs = set ?cs" by (simp add: sibs_def findAllOrdered_def)
  have len: "length sibs = length ?cs" by (simp add: sibs_def findAllOrdered_def)
  have "distinct (map id_pk ?cs)" using dist by (simp add: findAll_def distinct_map_filter)
  then show "distinct (map id_pk sibs)"
    unfolding sibs_def findAllOrdered_def by (rule distinct_map_sort_key)
  have dord: "distinct (map ordering sibs)"
    using dn unfolding sibs_def findAllOrdered_def dense_def Let_def
    by (intro distinct_map_sort_key) simp
  have "sorted (map ordering sibs)" by (simp add: sibs_def findAllOrdered_def)
  moreover have "set (map ordering sibs) = {0 ..< int (length (map ordering sibs))}"
    using dn set_eq len by (simp add: dense_def Let_def)
  ultimately have "map ordering sibs = map int [0 ..< length (map ordering sibs)]"
    using dord by (intro dense_sorted_nth)
  then show m: "map ordering sibs = map int [0 ..< length sibs]" by simp
  have nin: "n \<in> set sibs"
    using findByPk_Some[OF n] set_eq by (simp add: findAll_def)
  then have "ordering n \<in> set (map ordering sibs)" by simp
  then have "ordering n \<in> set (map int [0 ..< length sibs])" using m by simp
  then show o: "0 \<le> ordering n" and l: "nat (ordering n) < length sibs" by auto
  have "map ordering sibs ! nat (ordering n) = map int [0 ..< length sibs] ! nat (ordering n)"
    using m by simp
  then have "ordering (sibs ! nat (ordering n)) = ordering n" using l o by simp
  moreover have "inj_on ordering (set sibs)" using dord by (simp add: distinct_map)
  ultimately show "sibs ! nat (ordering n) = n"
    using nin l by (auto dest: inj_onD)
qed

lemma splice_remove1_in_range:
  "0 \<le> i \<Longrightarrow> nat i < length xs \<Longrightarrow>
   splice_remove1 xs i = take (nat i) xs @ drop (Suc (nat i)) xs"
  by (simp add: splice_remove1_def splice_start_def Let_def min_def)

lemma splice_insert_in_range:
  "0 \<le> i \<Longrightarrow> nat i \<le> length xs \<Longrightarrow>
   splice_insert xs i x = take (nat i) xs @ x # drop (nat i) xs"
  by (simp add: splice_insert_def splice_start_def Let_def min_def)

lemma reorderNode_in_range:
  assumes dist: "distinct (map id_pk (rows s))" and n: "findByPk (rows s) k = Some n"
    and dn: "dense (rows s) (parent_node_id n)"
    and lo: "0 \<le> q" and hi: "q < count_rows (rows s) (parent_node_id n)"
  shows "reorderNode s k q =
    (Inr (), s\<lparr>rows := map (renumbered
        (reinserted (findAllOrdered (rows s) (parent_node_id n)) n q) 0) (rows s)\<rparr>)"
proof -
  let ?sibs = "findAllOrdered (rows s) (parent_node_id n)"
  note sd = siblings_dense[OF dist n dn]
  have len: "int (length ?sibs) = count_rows (rows s) (parent_node_id n)"
    by (simp add: count_rows_def findAllOrdered_def)
  have rem: "splice_remove1 ?sibs (ordering n) =
             filter (\<lambda>r. id_pk r \<noteq> id_pk n) ?sibs"
    using filter_take_drop[OF sd(2) sd(5)] sd(6)
    by (simp add: splice_remove1_in_range[OF sd(4) sd(5)])
  have "length (filter (\<lambda>r. id_pk r \<noteq> id_pk n) ?sibs) = length ?sibs - 1"
    using filter_take_drop[OF sd(2) sd(5)] sd(5,6) by simp
  then have "nat q \<le> length (filter (\<lambda>r. id_pk r \<noteq> id_pk n) ?sibs)"
    using hi lo len by simp
  then have ins: "splice_insert (filter (\<lambda>r. id_pk r \<noteq> id_pk n) ?sibs) q n =
       reinserted ?sibs n q"
    using lo by (simp add: splice_insert_in_range reinserted_def)
  have "\<not> (q < 0 \<or> int (length ?sibs) \<le> q)" using lo hi len by simp
  then show ?thesis
    using n rem ins by (simp add: reorderNode_def Let_def renumber_map)
qed


lemma reinserted_props:
  assumes d: "distinct (map id_pk sibs)" and i: "i < length sibs" and n: "sibs ! i = n"
    and q: "0 \<le> q" "nat q < length sibs"
  shows "length (reinserted sibs n q) = length sibs"
    and "set (reinserted sibs n q) = set sibs"
    and "distinct (map id_pk (reinserted sibs n q))"
    and "reinserted sibs n q ! nat q = n"
proof -
  let ?oth = "filter (\<lambda>r. id_pk r \<noteq> id_pk n) sibs"
  have oth: "?oth = take i sibs @ drop (Suc i) sibs"
    using filter_take_drop[OF d i] n by simp
  have len: "length ?oth = length sibs - 1" using oth i by simp
  then have ql: "nat q \<le> length ?oth" using q by simp
  have split: "take (nat q) ?oth @ drop (nat q) ?oth = ?oth" by simp
  show "length (reinserted sibs n q) = length sibs"
    using len ql i by (simp add: reinserted_def)
  have nin: "n \<in> set sibs" using i n by auto
  have "set (take (nat q) ?oth) \<union> set (drop (nat q) ?oth) = set ?oth"
    by (metis set_append split)
  then have "set (reinserted sibs n q) = insert n (set ?oth)"
    by (auto simp: reinserted_def)
  also have "\<dots> = set sibs"
  proof -
    have "r = n" if "r \<in> set sibs" "id_pk r = id_pk n" for r
      using d that nin by (auto simp: distinct_map dest: inj_onD)
    then show ?thesis using nin by auto
  qed
  finally show "set (reinserted sibs n q) = set sibs" .
  have "distinct (map id_pk ?oth)" using d by (simp add: distinct_map_filter)
  then have "distinct (map id_pk (take (nat q) ?oth) @ map id_pk (drop (nat q) ?oth))"
    by (metis map_append split)
  moreover have "id_pk n \<notin> set (map id_pk (take (nat q) ?oth))"
    by (auto dest!: in_set_takeD)
  moreover have "id_pk n \<notin> set (map id_pk (drop (nat q) ?oth))"
    by (auto dest!: in_set_dropD)
  ultimately show "distinct (map id_pk (reinserted sibs n q))"
    by (simp add: reinserted_def)
  show "reinserted sibs n q ! nat q = n"
    using ql by (simp add: reinserted_def nth_append)
qed

lemma renumbered_self:
  assumes "distinct (map id_pk xs)"
  shows "map ordering (map (renumbered xs 0) xs) = map int [0 ..< length xs]"
proof (rule nth_equalityI)
  show "length (map ordering (map (renumbered xs 0) xs)) = length (map int [0 ..< length xs])"
    by simp
next
  fix j assume "j < length (map ordering (map (renumbered xs 0) xs))"
  then have j: "j < length xs" by simp
  have "renumbered xs 0 (xs ! j) = (xs ! j)\<lparr>ordering := 0 + int j\<rparr>"
    using assms j by (intro renumbered_at) simp_all
  then show "map ordering (map (renumbered xs 0) xs) ! j = map int [0 ..< length xs] ! j"
    using j by simp
qed

lemma findAll_renumbered:
  "findAll (map (renumbered xs i) t) p = map (renumbered xs i) (findAll t p)"
  by (simp add: findAll_def filter_map o_def)

lemma findAllOrdered_renumbered:
  assumes dt: "distinct (map id_pk t)" and sx: "set xs = set (findAll t p)"
    and dx: "distinct (map id_pk xs)"
  shows "findAllOrdered (map (renumbered xs 0) t) p = map (renumbered xs 0) xs"
proof -
  let ?g = "renumbered xs 0"
  let ?cs = "findAll t p"
  have ords: "map ordering (map ?g xs) = map int [0 ..< length xs]"
    using dx by (rule renumbered_self)
  have sorted_ys: "sorted (map ordering (map ?g xs))"
    unfolding ords by (simp add: sorted_map sorted_wrt_iff_nth_less)
  have dist_ys: "distinct (map ordering (map ?g xs))"
    unfolding ords by (simp add: distinct_map inj_on_def)
  have sets: "set (map ?g ?cs) = set (map ?g xs)" using sx by simp
  have "distinct (map id_pk (map ?g ?cs))"
    using dt by (simp add: o_def findAll_def distinct_map_filter)
  then have "distinct (map ?g ?cs)" by (simp only: distinct_map)
  moreover have "inj_on ordering (set (map ?g ?cs))"
    using dist_ys unfolding sets by (simp only: distinct_map)
  ultimately have "distinct (map ordering (map ?g ?cs))" by (simp only: distinct_map)
  then have "distinct (map ordering (sort_key ordering (map ?g ?cs)))"
    by (rule distinct_map_sort_key)
  moreover have "sorted (map ordering (sort_key ordering (map ?g ?cs)))" by simp
  moreover have "set (sort_key ordering (map ?g ?cs)) = set (map ?g xs)"
    using sets by simp
  ultimately have "sort_key ordering (map ?g ?cs) = map ?g xs"
    using sorted_ys dist_ys by (intro sorted_key_unique[where f=ordering])
  then show ?thesis by (simp add: findAllOrdered_def findAll_renumbered)
qed


lemma dense_from_sorted:
  assumes "map ordering (findAllOrdered t p) = map int [0 ..< length (findAll t p)]"
  shows "dense t p"
proof -
  let ?cs = "findAll t p"
  have "distinct (map ordering (sort_key ordering ?cs))"
    using assms by (simp add: findAllOrdered_def distinct_map inj_on_def)
  then have "distinct (map ordering ?cs)" by (simp add: distinct_map)
  moreover have "set (map ordering ?cs) = set (map ordering (findAllOrdered t p))"
    by (simp add: findAllOrdered_def)
  then have "set (map ordering ?cs) = {0 ..< int (length ?cs)}"
    unfolding assms by (simp add: image_int_atLeastLessThan)
  ultimately show ?thesis by (simp add: dense_def Let_def)
qed

lemma reorderNode_state:
  assumes dist: "distinct (map id_pk (rows s))" and n: "findByPk (rows s) k = Some n"
    and dn: "dense (rows s) (parent_node_id n)"
    and lo: "0 \<le> q" and hi: "q < count_rows (rows s) (parent_node_id n)"
  defines "sibs \<equiv> findAllOrdered (rows s) (parent_node_id n)"
  defines "ins \<equiv> reinserted sibs n q"
  defines "t' \<equiv> map (renumbered ins 0) (rows s)"
  shows "reorderNode s k q = (Inr (), s\<lparr>rows := t'\<rparr>)"
    and "findAllOrdered t' (parent_node_id n) = map (renumbered ins 0) ins"
    and "map ordering (findAllOrdered t' (parent_node_id n)) = map int [0 ..< length sibs]"
    and "findByPk t' k = Some (n\<lparr>ordering := q\<rparr>)"
    and "dense t' (parent_node_id n)"
proof -
  note sd = siblings_dense[OF dist n dn, folded sibs_def]
  have len: "int (length sibs) = count_rows (rows s) (parent_node_id n)"
    by (simp add: count_rows_def findAllOrdered_def sibs_def)
  then have ql: "nat q < length sibs" using lo hi by simp
  note rp = reinserted_props[OF sd(2) sd(5) sd(6) lo ql, folded ins_def]
  show "reorderNode s k q = (Inr (), s\<lparr>rows := t'\<rparr>)"
    unfolding t'_def ins_def sibs_def using dist n dn lo hi by (rule reorderNode_in_range)
  have sx: "set ins = set (findAll (rows s) (parent_node_id n))" using rp(2) sd(3) by simp
  show fo: "findAllOrdered t' (parent_node_id n) = map (renumbered ins 0) ins"
    unfolding t'_def using dist sx rp(3) by (rule findAllOrdered_renumbered)
  show ord: "map ordering (findAllOrdered t' (parent_node_id n)) = map int [0 ..< length sibs]"
    unfolding fo using renumbered_self[OF rp(3)] rp(1) by simp
  have "renumbered ins 0 n = n\<lparr>ordering := 0 + int (nat q)\<rparr>"
    using rp(1,3,4) ql by (intro renumbered_at) simp_all
  then have gn: "renumbered ins 0 n = n\<lparr>ordering := q\<rparr>" using lo by simp
  show "findByPk t' k = Some (n\<lparr>ordering := q\<rparr>)"
    unfolding t'_def using n gn by (subst findByPk_map) simp_all
  have "length (findAll t' (parent_node_id n)) = length sibs"
    by (simp add: t'_def findAll_renumbered sibs_def findAllOrdered_def)
  then show "dense t' (parent_node_id n)"
    using ord by (intro dense_from_sorted) simp
qed

lemma reinserted_ids:
  assumes d: "distinct (map id_pk sibs)" and i: "i < length sibs" and n: "sibs ! i = n"
  shows "map id_pk (reinserted sibs n q) =
         take (nat q) (take i (map id_pk sibs) @ drop (Suc i) (map id_pk sibs)) @ id_pk n #
         drop (nat q) (take i (map id_pk sibs) @ drop (Suc i) (map id_pk sibs))"
proof -
  let ?oth = "filter (\<lambda>r. id_pk r \<noteq> id_pk n) sibs"
  have A: "map id_pk (reinserted sibs n q) =
           take (nat q) (map id_pk ?oth) @ id_pk n # drop (nat q) (map id_pk ?oth)"
    by (simp add: reinserted_def take_map drop_map)
  have "?oth = take i sibs @ drop (Suc i) sibs"
    using filter_take_drop[OF d i] n by simp
  then have B: "map id_pk ?oth = take i (map id_pk sibs) @ drop (Suc i) (map id_pk sibs)"
    by (simp add: take_map drop_map)
  show ?thesis by (simp only: A B)
qed

lemma filter_reinsert:
  assumes "k \<notin> set ys"
  shows "filter (\<lambda>i. i \<noteq> k) (take q ys @ k # drop q ys) = ys"
proof -
  have "filter (\<lambda>i. i \<noteq> k) (take q ys) = take q ys"
    using assms by (auto simp: filter_id_conv dest: in_set_takeD)
  moreover have "filter (\<lambda>i. i \<noteq> k) (drop q ys) = drop q ys"
    using assms by (auto simp: filter_id_conv dest: in_set_dropD)
  ultimately show ?thesis by simp
qed

lemma two_children_dense: "dense (rows two_children) (Some 1)"
  by (auto simp: dense_def two_children_def findAll_def root_node_def)

lemma two_children_distinct: "distinct (map id_pk (rows two_children))"
  by (simp add: two_children_def root_node_def)

text \<open>
  C2: for a node of a table with unique keys whose sibling group is dense with \<open>m\<close> rows,
  and \<open>0 \<le> q < m\<close>, \<^verbatim>\<open>ReorderNode(id, q)\<close> succeeds. With \<open>before\<close> the sibling ids in
  ascending ordering, the node sits at the index equal to its ordering; \<open>others\<close> is
  \<open>before\<close> without that index, \<open>after\<close> is \<open>others\<close> with the node put in at index \<open>q\<close>, and
  afterwards the siblings in ascending ordering are \<open>after\<close> with the orderings
  \<open>0, \<dots>, m - 1\<close>: the node has ordering \<open>q\<close>, the group is dense again, and the other
  siblings keep their relative order.
\<close>

theorem reorderNode_renumbers:
  assumes "distinct (map id_pk (rows s))" and "findByPk (rows s) k = Some n"
    and "dense (rows s) (parent_node_id n)"
    and "0 \<le> q" and "q < count_rows (rows s) (parent_node_id n)"
  shows "\<exists>s' before others after.
     reorderNode s k q = (Inr (), s') \<and>
     before = map id_pk (findAllOrdered (rows s) (parent_node_id n)) \<and>
     before ! nat (ordering n) = k \<and>
     others = take (nat (ordering n)) before @ drop (Suc (nat (ordering n))) before \<and>
     after = take (nat q) others @ k # drop (nat q) others \<and>
     map id_pk (findAllOrdered (rows s') (parent_node_id n)) = after \<and>
     map ordering (findAllOrdered (rows s') (parent_node_id n)) = map int [0 ..< length before] \<and>
     findByPk (rows s') k = Some (n\<lparr>ordering := q\<rparr>) \<and>
     dense (rows s') (parent_node_id n) \<and>
     filter (\<lambda>i. i \<noteq> k) after = filter (\<lambda>i. i \<noteq> k) before"
proof -
  let ?sibs = "findAllOrdered (rows s) (parent_node_id n)"
  let ?ins = "reinserted ?sibs n q"
  let ?t' = "map (renumbered ?ins 0) (rows s)"
  let ?o = "nat (ordering n)"
  define before where "before = map id_pk ?sibs"
  define others where "others = take ?o before @ drop (Suc ?o) before"
  define after where "after = take (nat q) others @ k # drop (nat q) others"
  define s' where "s' = s\<lparr>rows := ?t'\<rparr>"
  note st = reorderNode_state[OF assms]
  note sd = siblings_dense[OF assms(1-3)]
  have idn: "id_pk n = k" using findByPk_Some[OF assms(2)] by simp
  have r: "rows s' = ?t'" by (simp add: s'_def)
  have c1: "reorderNode s k q = (Inr (), s')" unfolding s'_def by (rule st(1))
  have c3: "before ! ?o = k" using sd(5,6) idn by (simp add: before_def)
  have c6: "map id_pk (findAllOrdered (rows s') (parent_node_id n)) = after"
    unfolding r st(2) after_def others_def before_def
    using reinserted_ids[OF sd(2) sd(5) sd(6), of q] idn
    by (simp only: map_map o_def renumbered_fields)
  have c7: "map ordering (findAllOrdered (rows s') (parent_node_id n)) =
            map int [0 ..< length before]"
    unfolding r using st(3) by (simp add: before_def)
  have c8: "findByPk (rows s') k = Some (n\<lparr>ordering := q\<rparr>)"
    unfolding r by (rule st(4))
  have c9: "dense (rows s') (parent_node_id n)" unfolding r by (rule st(5))
  have db: "distinct (map (\<lambda>x. x) before)" using sd(2) by (simp add: before_def)
  have lb: "?o < length before" using sd(5) by (simp add: before_def)
  have fb: "filter (\<lambda>i. i \<noteq> k) before = others"
    using filter_take_drop[OF db lb] c3 by (simp add: others_def)
  have "k \<notin> set others" unfolding fb[symmetric] by simp
  then have "filter (\<lambda>i. i \<noteq> k) after = others"
    unfolding after_def by (rule filter_reinsert)
  then have c10: "filter (\<lambda>i. i \<noteq> k) after = filter (\<lambda>i. i \<noteq> k) before"
    using fb by simp
  from c1 before_def c3 others_def after_def c6 c7 c8 c9 c10 show ?thesis by blast
qed

theorem reorderNode_renumbers_witness:
  "distinct (map id_pk (rows two_children)) \<and> dense (rows two_children) (Some 1) \<and>
   (\<exists>s'. reorderNode two_children 2 1 = (Inr (), s') \<and>
      map id_pk (findAllOrdered (rows s') (Some 1)) = [3, 2] \<and>
      map ordering (findAllOrdered (rows s') (Some 1)) = [0, 1] \<and>
      findByPk (rows s') 2 =
        Some \<lparr>id_pk = 2, title = ''A'', parent_node_id = Some 1, ordering = 1\<rparr> \<and>
      dense (rows s') (Some 1))"
proof -
  let ?a = "\<lparr>id_pk = 2, title = ''A'', parent_node_id = Some 1, ordering = 0\<rparr>"
  have f2: "findByPk (rows two_children) 2 = Some ?a"
    by (simp add: two_children_def findByPk_def root_node_def)
  have dn: "dense (rows two_children) (parent_node_id ?a)"
    using two_children_dense by simp
  have hi: "1 < count_rows (rows two_children) (parent_node_id ?a)"
    by (simp add: two_children_def count_rows_def findAll_def root_node_def)
  have b: "map id_pk (findAllOrdered (rows two_children) (Some 1)) = [2, 3]"
    by (simp add: two_children_def findAllOrdered_def findAll_def root_node_def)
  from reorderNode_renumbers[OF two_children_distinct f2 dn _ hi]
  obtain s' before others after where
    "reorderNode two_children 2 1 = (Inr (), s')"
    "before = map id_pk (findAllOrdered (rows two_children) (parent_node_id ?a))"
    "others = take (nat (ordering ?a)) before @ drop (Suc (nat (ordering ?a))) before"
    "after = take (nat 1) others @ 2 # drop (nat 1) others"
    "map id_pk (findAllOrdered (rows s') (parent_node_id ?a)) = after"
    "map ordering (findAllOrdered (rows s') (parent_node_id ?a)) = map int [0 ..< length before]"
    "findByPk (rows s') 2 = Some (?a\<lparr>ordering := 1\<rparr>)"
    "dense (rows s') (parent_node_id ?a)"
    by auto
  then have "reorderNode two_children 2 1 = (Inr (), s') \<and>
      map id_pk (findAllOrdered (rows s') (Some 1)) = [3, 2] \<and>
      map ordering (findAllOrdered (rows s') (Some 1)) = [0, 1] \<and>
      findByPk (rows s') 2 =
        Some \<lparr>id_pk = 2, title = ''A'', parent_node_id = Some 1, ordering = 1\<rparr> \<and>
      dense (rows s') (Some 1)"
    using b by (simp add: upt_rec)
  then have ex: "\<exists>s'. reorderNode two_children 2 1 = (Inr (), s') \<and>
      map id_pk (findAllOrdered (rows s') (Some 1)) = [3, 2] \<and>
      map ordering (findAllOrdered (rows s') (Some 1)) = [0, 1] \<and>
      findByPk (rows s') 2 =
        Some \<lparr>id_pk = 2, title = ''A'', parent_node_id = Some 1, ordering = 1\<rparr> \<and>
      dense (rows s') (Some 1)" ..
  show ?thesis
  proof (intro conjI)
    show "distinct (map id_pk (rows two_children))" by (rule two_children_distinct)
    show "dense (rows two_children) (Some 1)" by (rule two_children_dense)
    show "\<exists>s'. reorderNode two_children 2 1 = (Inr (), s') \<and>
      map id_pk (findAllOrdered (rows s') (Some 1)) = [3, 2] \<and>
      map ordering (findAllOrdered (rows s') (Some 1)) = [0, 1] \<and>
      findByPk (rows s') 2 =
        Some \<lparr>id_pk = 2, title = ''A'', parent_node_id = Some 1, ordering = 1\<rparr> \<and>
      dense (rows s') (Some 1)" by (rule ex)
  qed
qed

text \<open>
  C8: for a node of a table with unique keys whose sibling group is dense,
  \<^verbatim>\<open>ReorderNode\<close> with the node's current ordering succeeds and leaves the store exactly
  as it was.
\<close>

theorem reorderNode_same_position:
  assumes dist: "distinct (map id_pk (rows s))" and n: "findByPk (rows s) k = Some n"
    and dn: "dense (rows s) (parent_node_id n)"
  shows "reorderNode s k (ordering n) = (Inr (), s)"
proof -
  let ?sibs = "findAllOrdered (rows s) (parent_node_id n)"
  let ?o = "nat (ordering n)"
  note sd = siblings_dense[OF dist n dn]
  have hi: "ordering n < count_rows (rows s) (parent_node_id n)"
    using sd(4,5) by (simp add: count_rows_def findAllOrdered_def)
  have oth: "filter (\<lambda>r. id_pk r \<noteq> id_pk n) ?sibs = take ?o ?sibs @ drop (Suc ?o) ?sibs"
    using filter_take_drop[OF sd(2) sd(5)] sd(6) by simp
  have "reinserted ?sibs n (ordering n) = take ?o ?sibs @ ?sibs ! ?o # drop (Suc ?o) ?sibs"
    unfolding reinserted_def oth using sd(5,6) by (simp add: min_def)
  then have same: "reinserted ?sibs n (ordering n) = ?sibs"
    using id_take_nth_drop[OF sd(5)] by simp
  have "renumbered ?sibs 0 r = r" if r: "r \<in> set (rows s)" for r
  proof (cases "id_pk r \<in> id_pk ` set ?sibs")
    case False
    then show ?thesis by (rule renumbered_notin)
  next
    case True
    then obtain j where j: "j < length ?sibs" "id_pk r = id_pk (?sibs ! j)"
      by (auto simp: in_set_conv_nth)
    have "?sibs ! j \<in> set (rows s)"
      using nth_mem[OF j(1)] sd(3) by (simp add: findAll_def)
    then have eq: "r = ?sibs ! j"
      using dist r j(2) by (auto simp: distinct_map dest: inj_onD)
    have "map ordering ?sibs ! j = map int [0 ..< length ?sibs] ! j" using sd(1) by simp
    then have "ordering r = int j" using j(1) eq by simp
    moreover have "renumbered ?sibs 0 r = r\<lparr>ordering := 0 + int j\<rparr>"
      using sd(2) j by (rule renumbered_at)
    ultimately show ?thesis by simp
  qed
  then have "map (renumbered ?sibs 0) (rows s) = rows s" by (simp add: map_idI)
  then show ?thesis
    using reorderNode_in_range[OF dist n dn sd(4) hi] same by simp
qed

theorem reorderNode_same_position_witness:
  "distinct (map id_pk (rows two_children)) \<and> dense (rows two_children) (Some 1) \<and>
   reorderNode two_children 3 1 = (Inr (), two_children)"
proof -
  let ?b = "\<lparr>id_pk = 3, title = ''B'', parent_node_id = Some 1, ordering = 1\<rparr>"
  have f3: "findByPk (rows two_children) 3 = Some ?b"
    by (simp add: two_children_def findByPk_def root_node_def)
  have dn: "dense (rows two_children) (parent_node_id ?b)"
    using two_children_dense by simp
  from reorderNode_same_position[OF two_children_distinct f3 dn]
  have "reorderNode two_children 3 1 = (Inr (), two_children)" by simp
  with two_children_distinct two_children_dense show ?thesis by simp
qed

section \<open>The ordering given by insert and move\<close>

text \<open>The store with the gap is what the routes leave after these five requests.\<close>

lemma gap_store_reached:
  "moveNode
     (snd (insertNode (snd (insertNode (snd (insertNode (bootstrap empty_store)
        1 ''A'')) 1 ''B'')) 1 ''C'')) 2 4 = Some (Inr (), before_gap) \<and>
   deleteNode 2 before_gap 3 = Some (Inr (), gap_store)"
  by (simp add: insertNode_def bootstrap_def empty_store_def findByPk_def root_node_def
      count_rows_def findAll_def create_def Let_def moveNode_def isDescendant.simps save_def
      before_gap_def gap_store_def deleteNode_def destroy_def numeral_2_eq_2)

lemma dense_sorted:
  assumes "dense t p"
  shows "map ordering (findAllOrdered t p) = map int [0 ..< length (findAll t p)]"
proof -
  let ?cs = "findAll t p"
  have "distinct (map ordering (findAllOrdered t p))"
    using assms unfolding findAllOrdered_def dense_def Let_def
    by (intro distinct_map_sort_key) simp
  moreover have "sorted (map ordering (findAllOrdered t p))"
    by (simp add: findAllOrdered_def)
  moreover have "set (map ordering (findAllOrdered t p)) =
                 {0 ..< int (length (map ordering (findAllOrdered t p)))}"
    using assms by (simp add: dense_def Let_def findAllOrdered_def)
  ultimately have "map ordering (findAllOrdered t p) =
                   map int [0 ..< length (map ordering (findAllOrdered t p))]"
    by (intro dense_sorted_nth)
  then show ?thesis by (simp add: findAllOrdered_def)
qed

lemma dense_bounds:
  "dense t p \<Longrightarrow> r \<in> set (findAll t p) \<Longrightarrow>
   0 \<le> ordering r \<and> ordering r < int (length (findAll t p))"
  by (auto simp: dense_def Let_def)

lemma append_last_child:
  assumes dn: "dense t p" and par: "parent_node_id n = p"
    and ord: "ordering n = int (length (findAll t p))"
  shows "findAllOrdered (t @ [n]) p = findAllOrdered t p @ [n]"
    and "dense (t @ [n]) p"
proof -
  let ?cs = "findAll t p"
  have fa: "findAll (t @ [n]) p = ?cs @ [n]" using par by (simp add: findAll_def)
  have below: "ordering r < ordering n" if "r \<in> set ?cs" for r
    using dense_bounds[OF dn that] ord by simp
  have dcs: "distinct (map ordering ?cs)" using dn by (simp add: dense_def Let_def)
  have notin: "ordering n \<notin> ordering ` set ?cs" using below by force
  have d1: "distinct (map ordering (?cs @ [n]))" using dcs notin by simp
  have "distinct (map ordering (sort_key ordering (?cs @ [n])))"
    using d1 by (rule distinct_map_sort_key)
  moreover have "sorted (map ordering (sort_key ordering (?cs @ [n])))" by simp
  moreover have "sorted (map ordering (sort_key ordering ?cs @ [n]))"
    using below by (auto simp: sorted_append intro: less_imp_le)
  moreover have "distinct (map ordering (sort_key ordering ?cs @ [n]))"
    using distinct_map_sort_key[OF dcs, of ordering] notin by simp
  moreover have "set (sort_key ordering (?cs @ [n])) = set (sort_key ordering ?cs @ [n])"
    by simp
  ultimately have "sort_key ordering (?cs @ [n]) = sort_key ordering ?cs @ [n]"
    by (intro sorted_key_unique[where f=ordering])
  then show "findAllOrdered (t @ [n]) p = findAllOrdered t p @ [n]"
    by (simp add: findAllOrdered_def fa)
  have "set (map ordering (?cs @ [n])) = {0 ..< int (length (?cs @ [n]))}"
    using dn ord by (auto simp: dense_def Let_def)
  then show "dense (t @ [n]) p" using d1 by (simp add: dense_def Let_def fa)
qed

text \<open>
  C5: \<^verbatim>\<open>InsertNode(parentId, title)\<close> answers \<open>InvalidParent\<close> exactly when no row has the
  id \<open>parentId\<close>, and then creates no row; otherwise it adds one row with a fresh id, the
  given title, the given parent and, as ordering, the number of rows that had this parent
  before the insert. When the parent's children are dense before the insert, the new node
  is the last child (the children in ascending ordering are the former ones followed by
  the new node) and the children are dense again. Two successive inserts under the root
  of the freshly started store get the orderings 0 and 1.
\<close>

theorem insertNode_count_ordering:
  "(fst (insertNode s p ttl) = Inl InvalidParent \<longleftrightarrow> findByPk (rows s) p = None) \<and>
   (findByPk (rows s) p = None \<longrightarrow> snd (insertNode s p ttl) = s) \<and>
   (findByPk (rows s) p \<noteq> None \<longrightarrow>
      (\<exists>n s'. insertNode s p ttl = (Inr n, s') \<and>
           rows s' = rows s @ [n] \<and>
           id_pk n \<notin> id_pk ` set (rows s) \<and>
           title n = ttl \<and> parent_node_id n = Some p \<and>
           ordering n = int (length (filter (\<lambda>r. parent_node_id r = Some p) (rows s))) \<and>
           (dense (rows s) (Some p) \<longrightarrow>
              findAllOrdered (rows s') (Some p) = findAllOrdered (rows s) (Some p) @ [n] \<and>
              dense (rows s') (Some p)))) \<and>
   (\<exists>a b. fst (insertNode (bootstrap empty_store) 1 t1) = Inr a \<and> ordering a = 0 \<and>
      fst (insertNode (snd (insertNode (bootstrap empty_store) 1 t1)) 1 t2) = Inr b \<and>
      ordering b = 1)"
proof (intro conjI impI)
  show "fst (insertNode s p ttl) = Inl InvalidParent \<longleftrightarrow> findByPk (rows s) p = None"
    by (auto simp: insertNode_def Let_def split: option.splits prod.splits)
  show "snd (insertNode s p ttl) = s" if "findByPk (rows s) p = None"
    using that by (simp add: insertNode_def)
  show "\<exists>a b. fst (insertNode (bootstrap empty_store) 1 t1) = Inr a \<and> ordering a = 0 \<and>
      fst (insertNode (snd (insertNode (bootstrap empty_store) 1 t1)) 1 t2) = Inr b \<and>
      ordering b = 1"
    by (simp add: insertNode_def bootstrap_def empty_store_def findByPk_def root_node_def
        count_rows_def findAll_def create_def Let_def)
next
  assume ex: "findByPk (rows s) p \<noteq> None"
  then obtain pn where pn: "findByPk (rows s) p = Some pn" by auto
  define n where "n = fst (create s ttl (Some p) (count_rows (rows s) (Some p)))"
  define s' where "s' = snd (create s ttl (Some p) (count_rows (rows s) (Some p)))"
  have res: "insertNode s p ttl = (Inr n, s')"
    using pn by (simp add: insertNode_def Let_def n_def s'_def split: prod.splits)
  have fresh: "id_pk n \<notin> id_pk ` set (rows s)"
    using create_fresh[OF n_def[symmetric]] .
  have rws: "rows s' = rows s @ [n]"
    by (simp add: create_def Let_def n_def s'_def)
  have flds: "title n = ttl" "parent_node_id n = Some p"
    by (simp_all add: create_def Let_def n_def)
  have ord: "ordering n = int (length (findAll (rows s) (Some p)))"
    by (simp add: create_def Let_def n_def count_rows_def)
  have last: "findAllOrdered (rows s') (Some p) = findAllOrdered (rows s) (Some p) @ [n] \<and>
              dense (rows s') (Some p)" if "dense (rows s) (Some p)"
    unfolding rws using append_last_child[OF that flds(2) ord] by simp
  have ord': "ordering n = int (length (filter (\<lambda>r. parent_node_id r = Some p) (rows s)))"
    using ord by (simp add: findAll_def)
  from res rws fresh flds ord' last
  show "\<exists>n s'. insertNode s p ttl = (Inr n, s') \<and>
           rows s' = rows s @ [n] \<and>
           id_pk n \<notin> id_pk ` set (rows s) \<and>
           title n = ttl \<and> parent_node_id n = Some p \<and>
           ordering n = int (length (filter (\<lambda>r. parent_node_id r = Some p) (rows s))) \<and>
           (dense (rows s) (Some p) \<longrightarrow>
              findAllOrdered (rows s') (Some p) = findAllOrdered (rows s) (Some p) @ [n] \<and>
              dense (rows s') (Some p))"
    by blast
qed

theorem insertNode_count_ordering_witness:
  "findByPk (rows two_children) 1 \<noteq> None \<and> findByPk (rows two_children) 9 = None \<and>
   dense (rows two_children) (Some 1) \<and>
   insertNode two_children 9 ''C'' = (Inl InvalidParent, two_children) \<and>
   (\<exists>n s'. insertNode two_children 1 ''C'' = (Inr n, s') \<and>
        rows s' = rows two_children @ [n] \<and>
        id_pk n \<notin> id_pk ` set (rows two_children) \<and> ordering n = 2 \<and>
        map id_pk (findAllOrdered (rows s') (Some 1)) = [2, 3, id_pk n] \<and>
        dense (rows s') (Some 1))"
proof -
  have a: "findByPk (rows two_children) 1 \<noteq> None"
    by (simp add: two_children_def findByPk_def root_node_def)
  have b: "findByPk (rows two_children) 9 = None"
    by (simp add: two_children_def findByPk_def root_node_def)
  have c: "int (length (filter (\<lambda>r. parent_node_id r = Some 1) (rows two_children))) = 2"
    by (simp add: two_children_def root_node_def)
  have o: "map id_pk (findAllOrdered (rows two_children) (Some 1)) = [2, 3]"
    by (simp add: two_children_def findAllOrdered_def findAll_def root_node_def)
  from insertNode_count_ordering[of two_children 9 "''C''" "''x''" "''y''"] b
  have d: "insertNode two_children 9 ''C'' = (Inl InvalidParent, two_children)"
    by (metis prod.collapse)
  from insertNode_count_ordering[of two_children 1 "''C''" "''x''" "''y''"] a two_children_dense
  obtain n s' where r: "insertNode two_children 1 ''C'' = (Inr n, s')"
      "rows s' = rows two_children @ [n]" "id_pk n \<notin> id_pk ` set (rows two_children)"
      "ordering n = int (length (filter (\<lambda>r. parent_node_id r = Some 1) (rows two_children)))"
      "findAllOrdered (rows s') (Some 1) = findAllOrdered (rows two_children) (Some 1) @ [n]"
      "dense (rows s') (Some 1)"
    by blast
  have o2: "ordering n = 2" using r(4) c by simp
  have ids: "map id_pk (findAllOrdered (rows s') (Some 1)) = [2, 3, id_pk n]"
    using r(5) o by simp
  have e: "\<exists>n s'. insertNode two_children 1 ''C'' = (Inr n, s') \<and>
        rows s' = rows two_children @ [n] \<and>
        id_pk n \<notin> id_pk ` set (rows two_children) \<and> ordering n = 2 \<and>
        map id_pk (findAllOrdered (rows s') (Some 1)) = [2, 3, id_pk n] \<and>
        dense (rows s') (Some 1)"
    using r(1,2,3) o2 ids r(6) by (intro exI[of _ n] exI[of _ s'] conjI)
  show ?thesis
    using a b two_children_dense d e by (intro conjI)
qed

text \<open>
  Without density the new node need not be the last child: in the store with the gap the
  root has one child, C with ordering 2, so the node inserted under the root gets the
  ordering 1 and is listed before C.
\<close>

theorem insertNode_last_child_counterexample:
  "findByPk (rows gap_store) 1 \<noteq> None \<and>
   fst (insertNode gap_store 1 ''D'') =
     Inr \<lparr>id_pk = 5, title = ''D'', parent_node_id = Some 1, ordering = 1\<rparr> \<and>
   findAllOrdered (rows (snd (insertNode gap_store 1 ''D''))) (Some 1) =
     [\<lparr>id_pk = 5, title = ''D'', parent_node_id = Some 1, ordering = 1\<rparr>,
      \<lparr>id_pk = 4, title = ''C'', parent_node_id = Some 1, ordering = 2\<rparr>] \<and>
   last (findAllOrdered (rows (snd (insertNode gap_store 1 ''D''))) (Some 1)) \<noteq>
     \<lparr>id_pk = 5, title = ''D'', parent_node_id = Some 1, ordering = 1\<rparr>"
  by (simp add: insertNode_def gap_store_def findByPk_def root_node_def count_rows_def
      findAll_def create_def Let_def findAllOrdered_def)

lemma move_last_child:
  assumes dist: "distinct (map id_pk t)" and n: "findByPk t k = Some n"
    and dn: "dense t (Some np)"
  defines "m \<equiv> int (length (findAll t (Some np)))"
  defines "n' \<equiv> n\<lparr>parent_node_id := Some np, ordering := m\<rparr>"
  defines "t' \<equiv> map (moved k np m) t"
  shows "findAllOrdered t' (Some np) =
           filter (\<lambda>r. id_pk r \<noteq> k) (findAllOrdered t (Some np)) @ [n']"
    and "parent_node_id n \<noteq> Some np \<Longrightarrow>
           filter (\<lambda>r. id_pk r \<noteq> k) (findAllOrdered t (Some np)) = findAllOrdered t (Some np)"
    and "parent_node_id n \<noteq> Some np \<Longrightarrow> dense t' (Some np)"
proof -
  let ?cs = "findAll t (Some np)"
  let ?keep = "filter (\<lambda>r. id_pk r \<noteq> k) (sort_key ordering ?cs)"
  have nmem: "n \<in> set t" "id_pk n = k" using findByPk_Some[OF n] by simp_all
  have only: "r = n" if "r \<in> set t" "id_pk r = k" for r
    using findByPk_distinct[OF dist that(1)] that(2) n by simp
  have gn: "moved k np m n = n'" using nmem by (simp add: moved_def n'_def)
  have sets: "set (findAll t' (Some np)) = insert n' {r \<in> set ?cs. id_pk r \<noteq> k}"
  proof (intro equalityI subsetI)
    fix x assume "x \<in> set (findAll t' (Some np))"
    then obtain r where r: "r \<in> set t" "x = moved k np m r" "parent_node_id x = Some np"
      by (auto simp: findAll_def t'_def)
    show "x \<in> insert n' {r \<in> set ?cs. id_pk r \<noteq> k}"
    proof (cases "id_pk r = k")
      case True
      then show ?thesis using only[OF r(1)] r(2) gn by simp
    next
      case False
      then show ?thesis using r by (simp add: moved_def findAll_def)
    qed
  next
    fix x assume "x \<in> insert n' {r \<in> set ?cs. id_pk r \<noteq> k}"
    then consider "x = n'" | "x \<in> set ?cs" "id_pk x \<noteq> k" by auto
    then show "x \<in> set (findAll t' (Some np))"
    proof cases
      case 1
      have "moved k np m n \<in> set t'" using nmem(1) by (simp add: t'_def)
      then show ?thesis using 1 gn by (simp add: findAll_def n'_def)
    next
      case 2
      then have "x \<in> set t" "moved k np m x = x" by (simp_all add: findAll_def moved_def)
      then have "x \<in> set t'" unfolding t'_def by force
      then show ?thesis using 2(1) by (simp add: findAll_def)
    qed
  qed
  have below: "ordering r < m" if "r \<in> set ?cs" for r
    using dense_bounds[OF dn that] by (simp add: m_def)
  have dcs: "distinct (map ordering ?cs)" using dn by (simp add: dense_def Let_def)
  have dkeep: "distinct (map ordering ?keep)"
    using distinct_map_sort_key[OF dcs, of ordering] by (simp add: distinct_map_filter)
  have skeep: "sorted (map ordering ?keep)" by (simp add: sorted_filter)
  have on': "ordering n' = m" by (simp add: n'_def)
  have notin: "m \<notin> ordering ` set ?keep" using below by force
  have dR: "distinct (map ordering (?keep @ [n']))" using dkeep notin on' by simp
  have sR: "sorted (map ordering (?keep @ [n']))"
    using skeep below on' by (auto simp: sorted_append intro: less_imp_le)
  have setR: "set (?keep @ [n']) = set (findAll t' (Some np))"
    unfolding sets by auto
  have "id_pk (moved k np m r) = id_pk r" for r by (simp add: moved_def)
  then have "map id_pk t' = map id_pk t" by (simp add: t'_def)
  then have "distinct (map id_pk t')" using dist by simp
  then have "distinct t'" by (simp only: distinct_map)
  then have "distinct (findAll t' (Some np))" by (simp add: findAll_def)
  moreover have "inj_on ordering (set (findAll t' (Some np)))"
    using dR unfolding setR[symmetric] by (simp only: distinct_map)
  ultimately have "distinct (map ordering (findAll t' (Some np)))" by (simp only: distinct_map)
  then have "distinct (map ordering (sort_key ordering (findAll t' (Some np))))"
    by (rule distinct_map_sort_key)
  moreover have "sorted (map ordering (sort_key ordering (findAll t' (Some np))))" by simp
  moreover have "set (sort_key ordering (findAll t' (Some np))) = set (?keep @ [n'])"
    using setR by simp
  ultimately have "sort_key ordering (findAll t' (Some np)) = ?keep @ [n']"
    using sR dR by (intro sorted_key_unique[where f=ordering])
  then show main: "findAllOrdered t' (Some np) =
           filter (\<lambda>r. id_pk r \<noteq> k) (findAllOrdered t (Some np)) @ [n']"
    by (simp add: findAllOrdered_def)
  {
    assume other: "parent_node_id n \<noteq> Some np"
    have "id_pk r \<noteq> k" if "r \<in> set ?cs" for r
    proof
      assume "id_pk r = k"
      moreover have "r \<in> set t" "parent_node_id r = Some np"
        using that by (simp_all add: findAll_def)
      ultimately show False using only other by blast
    qed
    then show same: "filter (\<lambda>r. id_pk r \<noteq> k) (findAllOrdered t (Some np)) =
                     findAllOrdered t (Some np)"
      by (simp add: findAllOrdered_def filter_id_conv)
    have "length (findAll t' (Some np)) = length (findAllOrdered t' (Some np))"
      by (simp add: findAllOrdered_def)
    then have len: "length (findAll t' (Some np)) = Suc (length ?cs)"
      unfolding main same by (simp add: findAllOrdered_def)
    have "map ordering (findAllOrdered t' (Some np)) = map int [0 ..< Suc (length ?cs)]"
      unfolding main same using dense_sorted[OF dn] on' by (simp add: m_def)
    then show "dense t' (Some np)"
      using len by (intro dense_from_sorted) simp
  }
qed


lemma chain_store_wf: "wf_tree (rows chain_store)"
  by (simp add: wf_tree_def chain_store_def root_node_def findByPk_def)

text \<open>
  C6: in a well-formed table, when the node and the new parent exist, the node is not the
  root and is not met on the new parent's ancestor chain, \<^verbatim>\<open>MoveNode\<close> succeeds; the
  node's row gets the new parent and, as ordering, the number of rows that had the new
  parent before the move, and every other row (the former siblings included) is
  unchanged. When the new parent's children are dense before the move, the moved node is
  the last child: the children in ascending ordering are the former ones (without the
  node itself) followed by the node; if the node came from another parent they are dense
  again.
\<close>

theorem moveNode_count_ordering:
  assumes "wf_tree (rows s)"
    and "findByPk (rows s) k = Some n" and "findByPk (rows s) np = Some pn"
    and "k \<noteq> 1" and "\<not> on_chain (rows s) k (Some np)"
  shows "\<exists>s' n'. moveNode s k np = Some (Inr (), s') \<and> seq s' = seq s \<and>
           n' = n\<lparr>parent_node_id := Some np,
                  ordering := int (length (filter (\<lambda>r. parent_node_id r = Some np) (rows s)))\<rparr> \<and>
           rows s' = map (\<lambda>r. if id_pk r = k
                 then r\<lparr>parent_node_id := Some np,
                        ordering := int (length (filter (\<lambda>r. parent_node_id r = Some np) (rows s)))\<rparr>
                 else r) (rows s) \<and>
           findByPk (rows s') k = Some n' \<and>
           (dense (rows s) (Some np) \<longrightarrow>
              findAllOrdered (rows s') (Some np) =
                filter (\<lambda>r. id_pk r \<noteq> k) (findAllOrdered (rows s) (Some np)) @ [n']) \<and>
           (dense (rows s) (Some np) \<and> parent_node_id n \<noteq> Some np \<longrightarrow>
              findAllOrdered (rows s') (Some np) = findAllOrdered (rows s) (Some np) @ [n'] \<and>
              dense (rows s') (Some np))"
proof -
  define m where "m = int (length (findAll (rows s) (Some np)))"
  define n' where "n' = n\<lparr>parent_node_id := Some np, ordering := m\<rparr>"
  define s' where "s' = s\<lparr>rows := map (moved k np m) (rows s)\<rparr>"
  have dist: "distinct (map id_pk (rows s))" using assms(1) by (simp add: wf_tree_def)
  have mc: "m = count_rows (rows s) (Some np)" by (simp add: m_def count_rows_def)
  have mf: "m = int (length (filter (\<lambda>r. parent_node_id r = Some np) (rows s)))"
    by (simp add: m_def findAll_def)
  have c1: "moveNode s k np = Some (Inr (), s')"
    unfolding s'_def mc using assms by (rule moveNode_no_cycle)
  have c2: "seq s' = seq s" by (simp add: s'_def)
  have r: "rows s' = map (moved k np m) (rows s)" by (simp add: s'_def)
  have c4: "rows s' = map (\<lambda>r. if id_pk r = k
                 then r\<lparr>parent_node_id := Some np, ordering := m\<rparr> else r) (rows s)"
    unfolding r by (simp add: moved_def[abs_def])
  have "findByPk (map (moved k np m) (rows s)) k = Some (moved k np m n)"
    using assms(2) by (subst findByPk_map) (simp_all add: moved_def)
  then have c5: "findByPk (rows s') k = Some n'"
    unfolding r n'_def using findByPk_Some[OF assms(2)] by (simp add: moved_def)
  have c6: "findAllOrdered (rows s') (Some np) =
              filter (\<lambda>r. id_pk r \<noteq> k) (findAllOrdered (rows s) (Some np)) @ [n']"
    if "dense (rows s) (Some np)"
    unfolding r n'_def m_def by (rule move_last_child(1)[OF dist assms(2) that])
  have c7: "findAllOrdered (rows s') (Some np) = findAllOrdered (rows s) (Some np) @ [n'] \<and>
            dense (rows s') (Some np)"
    if "dense (rows s) (Some np) \<and> parent_node_id n \<noteq> Some np"
  proof -
    from that have d: "dense (rows s) (Some np)" and o: "parent_node_id n \<noteq> Some np"
      by simp_all
    have "dense (rows s') (Some np)"
      unfolding r m_def by (rule move_last_child(3)[OF dist assms(2) d o])
    then show ?thesis
      using c6[OF d] move_last_child(2)[OF dist assms(2) d o] by simp
  qed
  show ?thesis
    using c1 c2 n'_def c4 c5 c6 c7 unfolding mf
    by (intro exI[of _ s'] exI[of _ n'] conjI impI) simp_all
qed

theorem moveNode_count_ordering_witness:
  "wf_tree (rows chain_store) \<and> \<not> on_chain (rows chain_store) 4 (Some 1) \<and>
   dense (rows chain_store) (Some 1) \<and>
   (\<exists>s'. moveNode chain_store 4 1 = Some (Inr (), s') \<and>
      findByPk (rows s') 4 =
        Some \<lparr>id_pk = 4, title = ''C'', parent_node_id = Some 1, ordering = 1\<rparr> \<and>
      map id_pk (findAllOrdered (rows s') (Some 1)) = [2, 4] \<and>
      dense (rows s') (Some 1)) \<and>
   wf_tree (rows two_children) \<and> \<not> on_chain (rows two_children) 2 (Some 3) \<and>
   (\<exists>s'. moveNode two_children 2 3 = Some (Inr (), s') \<and>
      rows s' = [root_node,
              \<lparr>id_pk = 2, title = ''A'', parent_node_id = Some 3, ordering = 0\<rparr>,
              \<lparr>id_pk = 3, title = ''B'', parent_node_id = Some 1, ordering = 1\<rparr>])"
proof -
  let ?c = "\<lparr>id_pk = 4, title = ''C'', parent_node_id = Some 3, ordering = 0\<rparr>"
  let ?a = "\<lparr>id_pk = 2, title = ''A'', parent_node_id = Some 1, ordering = 0\<rparr>"
  have g4: "findByPk (rows chain_store) 4 = Some ?c"
    by (simp add: chain_store_def findByPk_def root_node_def)
  have g1: "findByPk (rows chain_store) 1 = Some root_node"
    by (simp add: chain_store_def findByPk_def root_node_def)
  have nc1: "\<not> on_chain (rows chain_store) 4 (Some 1)"
    by (simp add: on_chain_Some g1) (simp add: root_node_def on_chain_None)
  have dn1: "dense (rows chain_store) (Some 1)"
    by (auto simp: dense_def chain_store_def findAll_def root_node_def)
  have cnt1: "int (length (filter (\<lambda>r. parent_node_id r = Some 1) (rows chain_store))) = 1"
    by (simp add: chain_store_def root_node_def)
  have ids1: "map id_pk (findAllOrdered (rows chain_store) (Some 1)) = [2]"
    by (simp add: chain_store_def findAllOrdered_def findAll_def root_node_def)
  from moveNode_count_ordering[OF chain_store_wf g4 g1 _ nc1] dn1
  obtain s1 n1 where m1: "moveNode chain_store 4 1 = Some (Inr (), s1)"
    and n1: "n1 = ?c\<lparr>parent_node_id := Some 1,
        ordering := int (length (filter (\<lambda>r. parent_node_id r = Some 1) (rows chain_store)))\<rparr>"
    and k1: "findByPk (rows s1) 4 = Some n1"
    and l1: "findAllOrdered (rows s1) (Some 1) = findAllOrdered (rows chain_store) (Some 1) @ [n1]"
    and d1: "dense (rows s1) (Some 1)"
    by auto
  have n1': "n1 = \<lparr>id_pk = 4, title = ''C'', parent_node_id = Some 1, ordering = 1\<rparr>"
    unfolding n1 cnt1 by simp
  have e1: "\<exists>s'. moveNode chain_store 4 1 = Some (Inr (), s') \<and>
      findByPk (rows s') 4 =
        Some \<lparr>id_pk = 4, title = ''C'', parent_node_id = Some 1, ordering = 1\<rparr> \<and>
      map id_pk (findAllOrdered (rows s') (Some 1)) = [2, 4] \<and>
      dense (rows s') (Some 1)"
    using m1 k1 l1 d1 ids1 unfolding n1' by (intro exI[of _ s1] conjI) simp_all
  have f2: "findByPk (rows two_children) 2 = Some ?a"
    by (simp add: two_children_def findByPk_def root_node_def)
  have f3: "findByPk (rows two_children) 3 =
     Some \<lparr>id_pk = 3, title = ''B'', parent_node_id = Some 1, ordering = 1\<rparr>"
    by (simp add: two_children_def findByPk_def root_node_def)
  have f1: "findByPk (rows two_children) 1 = Some root_node"
    by (simp add: two_children_def findByPk_def root_node_def)
  have nc2: "\<not> on_chain (rows two_children) 2 (Some 3)"
    by (simp add: on_chain_Some on_chain_None f3 f1) (simp add: root_node_def on_chain_None)
  from moveNode_count_ordering[OF two_children_wf f2 f3 _ nc2]
  obtain s2 where m2: "moveNode two_children 2 3 = Some (Inr (), s2)"
    and r2: "rows s2 = map (\<lambda>r. if id_pk r = 2
                 then r\<lparr>parent_node_id := Some 3,
                        ordering := int (length (filter (\<lambda>r. parent_node_id r = Some 3)
                                                   (rows two_children)))\<rparr>
                 else r) (rows two_children)"
    by auto
  have "rows s2 = [root_node,
              \<lparr>id_pk = 2, title = ''A'', parent_node_id = Some 3, ordering = 0\<rparr>,
              \<lparr>id_pk = 3, title = ''B'', parent_node_id = Some 1, ordering = 1\<rparr>]"
    unfolding r2 by (simp add: two_children_def root_node_def)
  with m2 have e2: "\<exists>s'. moveNode two_children 2 3 = Some (Inr (), s') \<and>
      rows s' = [root_node,
              \<lparr>id_pk = 2, title = ''A'', parent_node_id = Some 3, ordering = 0\<rparr>,
              \<lparr>id_pk = 3, title = ''B'', parent_node_id = Some 1, ordering = 1\<rparr>]"
    by (intro exI[of _ s2] conjI)
  show ?thesis
    using chain_store_wf nc1 dn1 e1 two_children_wf nc2 e2 by (intro conjI)
qed

text \<open>
  Without density the moved node need not be the last child: in the store with the gap,
  moving A below the root gives it the ordering 1, before C with the ordering 2.
\<close>

theorem moveNode_last_child_counterexample:
  "moveNode gap_store 2 1 =
     Some (Inr (),
       \<lparr>rows = [root_node,
              \<lparr>id_pk = 2, title = ''A'', parent_node_id = Some 1, ordering = 1\<rparr>,
              \<lparr>id_pk = 4, title = ''C'', parent_node_id = Some 1, ordering = 2\<rparr>],
        seq = 4\<rparr>) \<and>
   findAllOrdered [root_node,
              \<lparr>id_pk = 2, title = ''A'', parent_node_id = Some 1, ordering = 1\<rparr>,
              \<lparr>id_pk = 4, title = ''C'', parent_node_id = Some 1, ordering = 2\<rparr>] (Some 1) =
     [\<lparr>id_pk = 2, title = ''A'', parent_node_id = Some 1, ordering = 1\<rparr>,
      \<lparr>id_pk = 4, title = ''C'', parent_node_id = Some 1, ordering = 2\<rparr>] \<and>
   last (findAllOrdered [root_node,
              \<lparr>id_pk = 2, title = ''A'', parent_node_id = Some 1, ordering = 1\<rparr>,
              \<lparr>id_pk = 4, title = ''C'', parent_node_id = Some 1, ordering = 2\<rparr>] (Some 1)) \<noteq>
     \<lparr>id_pk = 2, title = ''A'', parent_node_id = Some 1, ordering = 1\<rparr>"
  by (simp add: moveNode_def gap_store_def findByPk_def root_node_def isDescendant.simps
      count_rows_def findAll_def save_def findAllOrdered_def)

end
